theory Spec2Isabelle
  imports Main
begin

section \<open>Data model of \<open>enhanced_simulation.py\<close>\<close>

datatype BatteryStatus = NORMAL | WARNING | CRITICAL | CHARGING

text \<open>
  Percentages are Python ints. Durations are floats of seconds in the source; here they
  are integers of milliseconds (\<open>check_interval = 5.0\<close> is \<open>5000\<close>), and
  \<open>marker_size\<close> is in millimetres.
\<close>

record BatteryConfig =
  warning_threshold :: int
  critical_threshold :: int
  charging_threshold :: int
  check_interval :: int

record ArUcoConfig =
  dictionary_type :: int
  marker_size :: int
  search_timeout :: int
  approach_distance :: int

type_synonym frame = nat

type_synonym point = "int \<times> int"

text \<open>What \<open>cv2.cvtColor\<close> followed by \<open>detectMarkers\<close> does on a frame: it raises,
  it returns \<open>ids = None\<close>, or it returns corners (here their centres) and the ids
  of the markers, one row each.\<close>

datatype detection = DetectRaises | NoIds | Ids "point list" "int list"

text \<open>What \<open>tello.get_battery()\<close> does: it raises or it returns a value, maybe \<open>None\<close>.\<close>

datatype battery_read = ReadRaises | ReadValue "int option"

datatype shared_field =
  LastBatteryLevel | CurrentBatteryStatus | ChargingSpotFound | ChargingSpotPosition

datatype command = Streamon | GetFrameRead | RotateClockwise int | MoveForward int

text \<open>
  What a registered callback does when it is called: it returns, it raises, or it calls
  \<open>get_status()\<close> on the object, as a callback that wants the current state does.
  (\<open>update_config\<close> and \<open>reset_charging_spot_status\<close> take the same lock and, called
  from a callback while it is held, wait for it in the same way.)
\<close>

datatype callback = Returns | Raises | CallsGetStatus

text \<open>Whether a call comes back to its caller.\<close>

datatype completion = Returned | NeverReturns

text \<open>
  The observable events of a run. The boolean of a write or of a callback says whether
  \<open>self.lock\<close> was held by the running code at that moment.
\<close>

datatype event =
    Write shared_field bool
  | BatteryCallback int BatteryStatus bool
  | ChargingCallback int bool
  | SearchCall bool
  | TelloCommand command

text \<open>
  The drone object and the detector, as the code sees them. \<open>hasattr\<close> tests are the
  \<open>has_\<close> fields. Every interaction with the outside (a command, a read of
  \<open>frame_reader.frame\<close>, a detection, a battery read) is numbered by the counter
  \<open>calls\<close> of the state; the functions below say what the interaction of that number
  does and how long it takes.
\<close>

record tello =
  has_get_battery :: bool
  has_get_frame_read :: bool
  has_streamon :: bool
  has_rotate_clockwise :: bool
  has_move_forward :: bool
  get_battery :: "nat \<Rightarrow> battery_read"
  frame_at :: "nat \<Rightarrow> frame option"
  command_raises :: "nat \<Rightarrow> bool"
  detectMarkers :: "frame \<Rightarrow> detection"
  thread_alive :: "nat \<Rightarrow> bool"
  duration :: "nat \<Rightarrow> nat"

text \<open>
  The fields of an \<open>EnhancedSimulation\<close> object, then the model's own: whether the lock
  is held, the clock (milliseconds), the interaction counter and the trace of events.
  A callback field is \<open>None\<close> or the behaviour of the callback; a thread is its
  number. \<open>lock_held\<close> at a call says that the lock is held by the calling thread
  itself or by a thread that never releases it.
\<close>

record sim =
  battery_config :: BatteryConfig
  aruco_config :: ArUcoConfig
  is_running :: bool
  is_monitoring :: bool
  current_battery_status :: BatteryStatus
  last_battery_level :: int
  charging_spot_found :: bool
  charging_spot_position :: "point option"
  monitor_thread :: "nat option"
  battery_callback :: "callback option"
  charging_callback :: "callback option"
  status_callback :: "callback option"
  lock_held :: bool
  clock :: nat
  calls :: nat
  trace :: "event list"

section \<open>Construction and configuration\<close>

definition config_get :: "(string \<rightharpoonup> int) \<Rightarrow> string \<Rightarrow> int \<Rightarrow> int" where
  "config_get c k d = (case c k of None \<Rightarrow> d | Some v \<Rightarrow> v)"

definition EnhancedSimulation_init :: "(string \<rightharpoonup> int) \<Rightarrow> sim" where
  "EnhancedSimulation_init config =
     \<lparr> battery_config =
         \<lparr> warning_threshold = config_get config ''warning_threshold'' 20,
           critical_threshold = config_get config ''critical_threshold'' 10,
           charging_threshold = config_get config ''charging_threshold'' 5,
           check_interval = config_get config ''check_interval'' 5000 \<rparr>,
       aruco_config =
         \<lparr> dictionary_type = config_get config ''aruco_dict'' 0,
           marker_size = config_get config ''marker_size'' 50,
           search_timeout = config_get config ''search_timeout'' 30000,
           approach_distance = config_get config ''approach_distance'' 30 \<rparr>,
       is_running = False,
       is_monitoring = False,
       current_battery_status = NORMAL,
       last_battery_level = 100,
       charging_spot_found = False,
       charging_spot_position = None,
       monitor_thread = None,
       battery_callback = None,
       charging_callback = None,
       status_callback = None,
       lock_held = False,
       clock = 0,
       calls = 0,
       trace = [] \<rparr>"

definition set_callbacks ::
  "callback option \<Rightarrow> callback option \<Rightarrow> callback option \<Rightarrow> sim \<Rightarrow> sim" where
  "set_callbacks bc cc sc s =
     s\<lparr>battery_callback := bc, charging_callback := cc, status_callback := sc\<rparr>"

text \<open>\<open>with self.lock\<close> at the entry of a method, for a caller that finds the lock
  free, and the release at the end of the block.\<close>

definition acquire :: "sim \<Rightarrow> sim" where
  "acquire s = s\<lparr>lock_held := True\<rparr>"

definition release :: "sim \<Rightarrow> sim" where
  "release s = s\<lparr>lock_held := False\<rparr>"

definition emit :: "event \<Rightarrow> sim \<Rightarrow> sim" where
  "emit e s = s\<lparr>trace := trace s @ [e]\<rparr>"

text \<open>One interaction with the outside: it takes its time and the counter moves on.\<close>

definition tick :: "tello \<Rightarrow> sim \<Rightarrow> sim" where
  "tick env s = s\<lparr>clock := clock s + duration env (calls s), calls := Suc (calls s)\<rparr>"

definition sleep :: "nat \<Rightarrow> sim \<Rightarrow> sim" where
  "sleep d s = s\<lparr>clock := clock s + d\<rparr>"

definition update_config :: "(string \<rightharpoonup> int) \<Rightarrow> sim \<Rightarrow> sim" where
  "update_config new_config s0 =
     (let s = acquire s0;
          c1 = (case new_config ''warning_threshold'' of
                  None \<Rightarrow> battery_config s
                | Some v \<Rightarrow> (battery_config s)\<lparr>warning_threshold := v\<rparr>);
          c2 = (case new_config ''critical_threshold'' of
                  None \<Rightarrow> c1 | Some v \<Rightarrow> c1\<lparr>critical_threshold := v\<rparr>);
          c3 = (case new_config ''charging_threshold'' of
                  None \<Rightarrow> c2 | Some v \<Rightarrow> c2\<lparr>charging_threshold := v\<rparr>);
          c4 = (case new_config ''check_interval'' of
                  None \<Rightarrow> c3 | Some v \<Rightarrow> c3\<lparr>check_interval := v\<rparr>)
      in release (s\<lparr>battery_config := c4\<rparr>))"

definition reset_charging_spot_status :: "sim \<Rightarrow> sim" where
  "reset_charging_spot_status s0 =
     (let s = acquire s0;
          s1 = emit (Write ChargingSpotFound (lock_held s)) (s\<lparr>charging_spot_found := False\<rparr>);
          s2 = emit (Write ChargingSpotPosition (lock_held s1))
                 (s1\<lparr>charging_spot_position := None\<rparr>)
      in release s2)"

section \<open>Battery reading\<close>

definition get_battery_level :: "tello \<Rightarrow> sim \<Rightarrow> int option \<times> sim" where
  "get_battery_level env s =
     (if has_get_battery env then
        (case get_battery env (calls s) of
           ReadRaises \<Rightarrow> (None, tick env s)
         | ReadValue None \<Rightarrow> (None, tick env s)
         | ReadValue (Some battery) \<Rightarrow>
             (if 0 \<le> battery \<and> battery \<le> 100 then (Some battery, tick env s)
              else (None, tick env s)))
      else (None, s))"

section \<open>Marker detection, approach and search\<close>

text \<open>
  The loop over the corners in \<open>_detect_aruco_markers\<close>: each pass writes the position
  and the flag, then reads \<open>ids[i][0]\<close>, which raises when there are fewer ids than
  corners. The boolean says whether the loop came to its end.
\<close>

fun write_spots :: "point list \<Rightarrow> int list \<Rightarrow> sim \<Rightarrow> bool \<times> sim" where
  "write_spots [] ids s = (True, s)"
| "write_spots (center # rest) ids s =
     (let s1 = emit (Write ChargingSpotFound (lock_held s))
                 (emit (Write ChargingSpotPosition (lock_held s))
                    (s\<lparr>charging_spot_position := Some center, charging_spot_found := True\<rparr>))
      in case ids of
           [] \<Rightarrow> (False, s1)
         | marker_id # ids' \<Rightarrow> write_spots rest ids' s1)"

text \<open>An exception anywhere in the body, also one raised in the loop after the fields
  are written, is caught and the function returns \<open>False\<close>.\<close>

definition detect_aruco_markers :: "tello \<Rightarrow> frame \<Rightarrow> sim \<Rightarrow> bool \<times> sim" where
  "detect_aruco_markers env fr s =
     (case detectMarkers env fr of
        DetectRaises \<Rightarrow> (False, tick env s)
      | NoIds \<Rightarrow> (False, tick env s)
      | Ids centers ids \<Rightarrow> write_spots centers ids (tick env s))"

definition read_frame :: "tello \<Rightarrow> sim \<Rightarrow> frame option \<times> sim" where
  "read_frame env s = (frame_at env (calls s), tick env s)"

text \<open>The end of \<open>_approach_charging_spot\<close>: the frame is fetched again and the
  detection run on it.\<close>

definition refetch_and_detect :: "tello \<Rightarrow> sim \<Rightarrow> bool \<times> sim" where
  "refetch_and_detect env s =
     (case read_frame env s of
        (None, s1) \<Rightarrow> (False, s1)
      | (Some fr, s1) \<Rightarrow> detect_aruco_markers env fr s1)"

text \<open>With a \<open>move_forward\<close> attribute the drone is sent forward by
  \<open>approach_distance\<close>; when the command raises, the approach has failed; otherwise two
  seconds pass before the frame is fetched again. Without the attribute the frame is
  fetched again at once.\<close>

definition approach_charging_spot :: "tello \<Rightarrow> sim \<Rightarrow> bool \<times> sim" where
  "approach_charging_spot env s =
     (if has_move_forward env then
        (let s1 = tick env (emit (TelloCommand (MoveForward (approach_distance (aruco_config s)))) s)
         in if command_raises env (calls s) then (False, s1)
            else refetch_and_detect env (sleep 2000 s1))
      else refetch_and_detect env s)"

datatype outcome = Return bool | Continue

text \<open>One pass through the body of the \<open>while\<close> loop of \<open>_search_charging_spot\<close>.
  An exception of \<open>rotate_clockwise\<close> reaches the \<open>except\<close> of the function, which
  returns \<open>False\<close>.\<close>

definition search_iteration :: "tello \<Rightarrow> sim \<Rightarrow> outcome \<times> sim" where
  "search_iteration env s =
     (case read_frame env s of
        (None, s1) \<Rightarrow> (Continue, sleep 100 s1)
      | (Some fr, s1) \<Rightarrow>
          (case detect_aruco_markers env fr s1 of
             (markers_found, s2) \<Rightarrow>
               (case (if markers_found then approach_charging_spot env s2 else (False, s2)) of
                  (reached, s3) \<Rightarrow>
                    if reached then (Return True, s3)
                    else if has_rotate_clockwise env then
                      (let s4 = tick env (emit (TelloCommand (RotateClockwise 30)) s3)
                       in if command_raises env (calls s3) then (Return False, s4)
                          else (Continue, sleep 1000 s4))
                    else (Continue, sleep 1000 s3))))"

text \<open>
  The fields that the search never assigns: the two configurations, the battery status
  and level, the callbacks, the lock and the monitor's own fields.
\<close>

definition steady ::
  "sim \<Rightarrow> BatteryConfig \<times> ArUcoConfig \<times> BatteryStatus \<times> int \<times> (callback option \<times> callback option \<times> callback option) \<times> bool \<times> (bool \<times> bool \<times> nat option)" where
  "steady s =
     (battery_config s, aruco_config s, current_battery_status s, last_battery_level s,
      (battery_callback s, charging_callback s, status_callback s), lock_held s,
      (is_running s, is_monitoring s, monitor_thread s))"

text \<open>
  The \<open>while\<close> loop of \<open>_search_charging_spot\<close>; \<open>start_time\<close> is the reading of the
  clock before the loop.
\<close>

function search_loop :: "tello \<Rightarrow> nat \<Rightarrow> sim \<Rightarrow> bool \<times> sim" where
  "search_loop env start_time s =
     (if int (clock s) - int start_time < search_timeout (aruco_config s) then
        (case search_iteration env s of
           (Return b, s') \<Rightarrow> (b, s')
         | (Continue, s') \<Rightarrow> search_loop env start_time s')
      else (False, s))"
  by pat_completeness auto

definition search_charging_spot :: "tello \<Rightarrow> sim \<Rightarrow> bool \<times> sim" where
  "search_charging_spot env s0 =
     (let s = emit (SearchCall (lock_held s0)) s0
      in if \<not> has_get_frame_read env then (False, s)
         else
           (let s1 = (if has_streamon env then tick env (emit (TelloCommand Streamon) s) else s)
            in if has_streamon env \<and> command_raises env (calls s) then (False, s1)
               else
                 (let s2 = tick env (emit (TelloCommand GetFrameRead) s1)
                  in if command_raises env (calls s1) then (False, s2)
                     else search_loop env (clock s2) s2)))"

definition manual_charging_search :: "tello \<Rightarrow> sim \<Rightarrow> bool \<times> sim" where
  "manual_charging_search env s = search_charging_spot env s"

section \<open>The battery monitor\<close>

fun status_value :: "BatteryStatus \<Rightarrow> string" where
  "status_value NORMAL = ''normal''"
| "status_value WARNING = ''warning''"
| "status_value CRITICAL = ''critical''"
| "status_value CHARGING = ''charging''"

text \<open>
  \<open>get_status\<close> takes the lock; a caller that finds it held waits for it without end,
  which is the value \<open>None\<close>.
\<close>

record status_report =
  report_is_monitoring :: bool
  report_battery_level :: int
  report_battery_status :: string
  report_charging_spot_found :: bool
  report_charging_spot_position :: "point option"
  report_warning_threshold :: int
  report_critical_threshold :: int
  report_charging_threshold :: int

definition get_status :: "sim \<Rightarrow> status_report option" where
  "get_status s =
     (if lock_held s then None
      else Some \<lparr> report_is_monitoring = is_monitoring s,
                  report_battery_level = last_battery_level s,
                  report_battery_status = status_value (current_battery_status s),
                  report_charging_spot_found = charging_spot_found s,
                  report_charging_spot_position = charging_spot_position s,
                  report_warning_threshold = warning_threshold (battery_config s),
                  report_critical_threshold = critical_threshold (battery_config s),
                  report_charging_threshold = charging_threshold (battery_config s) \<rparr>)"

text \<open>
  The call of a callback slot, \<open>if cb: try: cb(...) except ...\<close>: nothing for an empty
  slot; an exception of the callback is caught; a callback that calls \<open>get_status()\<close>
  comes back only when that call does.
\<close>

definition call_callback :: "callback option \<Rightarrow> event \<Rightarrow> sim \<Rightarrow> completion \<times> sim" where
  "call_callback slot e s =
     (case slot of
        None \<Rightarrow> (Returned, s)
      | Some Returns \<Rightarrow> (Returned, emit e s)
      | Some Raises \<Rightarrow> (Returned, emit e s)
      | Some CallsGetStatus \<Rightarrow>
          (case get_status (emit e s) of
             None \<Rightarrow> (NeverReturns, emit e s)
           | Some report \<Rightarrow> (Returned, emit e s)))"

definition handle_critical_battery :: "tello \<Rightarrow> sim \<Rightarrow> completion \<times> sim" where
  "handle_critical_battery env s =
     (case call_callback (charging_callback s)
             (ChargingCallback (last_battery_level s) (lock_held s)) s of
        (NeverReturns, s1) \<Rightarrow> (NeverReturns, s1)
      | (Returned, s1) \<Rightarrow> (Returned, snd (search_charging_spot env s1)))"

text \<open>The whole body runs inside \<open>with self.lock\<close>: the lock is released when the body
  comes to its end, and stays held when a callback never returns.\<close>

definition process_battery_level :: "tello \<Rightarrow> int \<Rightarrow> sim \<Rightarrow> completion \<times> sim" where
  "process_battery_level env battery_level s0 =
     (let s = acquire s0;
          s1 = emit (Write LastBatteryLevel (lock_held s)) (s\<lparr>last_battery_level := battery_level\<rparr>);
          new_status =
            (if battery_level \<le> charging_threshold (battery_config s1) then CRITICAL
             else if battery_level \<le> critical_threshold (battery_config s1) then CRITICAL
             else if battery_level \<le> warning_threshold (battery_config s1) then WARNING
             else NORMAL)
      in if new_status \<noteq> current_battery_status s1 then
           (let s2 = emit (Write CurrentBatteryStatus (lock_held s1))
                       (s1\<lparr>current_battery_status := new_status\<rparr>)
            in case call_callback (battery_callback s2)
                      (BatteryCallback battery_level new_status (lock_held s2)) s2 of
                 (NeverReturns, s3) \<Rightarrow> (NeverReturns, s3)
               | (Returned, s3) \<Rightarrow>
                   if new_status = CRITICAL then
                     (case handle_critical_battery env s3 of
                        (NeverReturns, s4) \<Rightarrow> (NeverReturns, s4)
                      | (Returned, s4) \<Rightarrow> (Returned, release s4))
                   else (Returned, release s3))
         else (Returned, release s1))"

text \<open>The body of one pass of \<open>_battery_monitor_loop\<close>. A negative interval makes
  \<open>time.sleep\<close> raise; the loop's \<open>except\<close> then sleeps one second.\<close>

definition monitor_iteration :: "tello \<Rightarrow> sim \<Rightarrow> completion \<times> sim" where
  "monitor_iteration env s =
     (case get_battery_level env s of
        (r, s1) \<Rightarrow>
          (case (case r of None \<Rightarrow> (Returned, s1)
                 | Some battery_level \<Rightarrow> process_battery_level env battery_level s1) of
             (NeverReturns, s2) \<Rightarrow> (NeverReturns, s2)
           | (Returned, s2) \<Rightarrow>
               if check_interval (battery_config s2) < 0 then (Returned, sleep 1000 s2)
               else (Returned, sleep (nat (check_interval (battery_config s2))) s2)))"

text \<open>The monitor fed a sequence of valid samples, one per cycle, and the status it
  holds after each. A cycle that never returns is the monitor's last.\<close>

fun poll_cycles :: "tello \<Rightarrow> int list \<Rightarrow> sim \<Rightarrow> completion \<times> sim" where
  "poll_cycles env [] s = (Returned, s)"
| "poll_cycles env (level # levels) s =
     (case process_battery_level env level s of
        (NeverReturns, s1) \<Rightarrow> (NeverReturns, s1)
      | (Returned, s1) \<Rightarrow> poll_cycles env levels s1)"

fun observed_statuses :: "tello \<Rightarrow> int list \<Rightarrow> sim \<Rightarrow> BatteryStatus list" where
  "observed_statuses env [] s = []"
| "observed_statuses env (level # levels) s =
     (case process_battery_level env level s of
        (NeverReturns, s1) \<Rightarrow> [current_battery_status s1]
      | (Returned, s1) \<Rightarrow> current_battery_status s1 # observed_statuses env levels s1)"

text \<open>What a Python function hands back: \<open>None\<close> (no \<open>return\<close> statement) or a bool.\<close>

datatype pyval = PyNone | PyBool bool

definition start_monitoring :: "sim \<Rightarrow> pyval \<times> sim" where
  "start_monitoring s =
     (if is_monitoring s then (PyBool False, s)
      else (PyBool True,
            s\<lparr>is_monitoring := True,
              monitor_thread := Some (case monitor_thread s of None \<Rightarrow> 0 | Some n \<Rightarrow> Suc n)\<rparr>))"

text \<open>\<open>join(timeout=2.0)\<close> waits for the thread, two seconds at most.\<close>

definition stop_monitoring :: "tello \<Rightarrow> sim \<Rightarrow> pyval \<times> sim" where
  "stop_monitoring env s =
     (let s1 = s\<lparr>is_monitoring := False\<rparr>
      in (PyNone,
          if monitor_thread s1 \<noteq> None \<and> thread_alive env (calls s1)
          then s1\<lparr>clock := clock s1 + min 2000 (duration env (calls s1)), calls := Suc (calls s1)\<rparr>
          else s1))"

definition cleanup :: "tello \<Rightarrow> sim \<Rightarrow> pyval \<times> sim" where
  "cleanup env s = (PyNone, snd (stop_monitoring env s))"

section \<open>Status reports\<close>

record battery_info =
  current_level :: int
  status :: string
  info_warning_threshold :: int
  info_critical_threshold :: int
  info_charging_threshold :: int
  is_low :: bool
  is_critical :: bool

definition get_battery_info :: "tello \<Rightarrow> sim \<Rightarrow> battery_info \<times> sim" where
  "get_battery_info env s =
     (case get_battery_level env s of
        (r, s1) \<Rightarrow>
          (let battery_level = (case r of None \<Rightarrow> last_battery_level s1 | Some b \<Rightarrow> b)
           in (\<lparr> current_level = battery_level,
                 status = status_value (current_battery_status s1),
                 info_warning_threshold = warning_threshold (battery_config s1),
                 info_critical_threshold = critical_threshold (battery_config s1),
                 info_charging_threshold = charging_threshold (battery_config s1),
                 is_low = (battery_level \<le> warning_threshold (battery_config s1)),
                 is_critical = (battery_level \<le> critical_threshold (battery_config s1)) \<rparr>,
               s1)))"

section \<open>The command executor of \<open>simulation.py\<close>\<close>





section \<open>Example drones\<close>

text \<open>An object with none of the attributes the code asks for.\<close>

definition bare_drone :: tello where
  "bare_drone =
     \<lparr> has_get_battery = False, has_get_frame_read = False, has_streamon = False,
       has_rotate_clockwise = False, has_move_forward = False,
       get_battery = (\<lambda>k. ReadRaises), frame_at = (\<lambda>k. None),
       command_raises = (\<lambda>k. False), detectMarkers = (\<lambda>fr. NoIds),
       thread_alive = (\<lambda>k. False), duration = (\<lambda>k. 0) \<rparr>"

text \<open>A drone whose battery read fails and whose camera never has a frame; every
  interaction takes 50 ms.\<close>

definition blind_drone :: tello where
  "blind_drone =
     \<lparr> has_get_battery = True, has_get_frame_read = True, has_streamon = True,
       has_rotate_clockwise = True, has_move_forward = True,
       get_battery = (\<lambda>k. ReadRaises), frame_at = (\<lambda>k. None),
       command_raises = (\<lambda>k. False), detectMarkers = (\<lambda>fr. NoIds),
       thread_alive = (\<lambda>k. False), duration = (\<lambda>k. 50) \<rparr>"

text \<open>A drone in front of a marker: every frame shows it.\<close>

definition marker_drone :: tello where
  "marker_drone =
     \<lparr> has_get_battery = True, has_get_frame_read = True, has_streamon = True,
       has_rotate_clockwise = True, has_move_forward = True,
       get_battery = (\<lambda>k. ReadValue (Some 9)), frame_at = (\<lambda>k. Some 0),
       command_raises = (\<lambda>k. False), detectMarkers = (\<lambda>fr. Ids [(320, 240)] [7]),
       thread_alive = (\<lambda>k. False), duration = (\<lambda>k. 50) \<rparr>"

section \<open>Definitions of the statements\<close>

text \<open>The classification as the specification words it: the thresholds in order of
  severity, the first that the level does not exceed decides.\<close>

definition spec_classify :: "BatteryConfig \<Rightarrow> int \<Rightarrow> BatteryStatus" where
  "spec_classify cfg level =
     (if level \<le> charging_threshold cfg then CRITICAL
      else if level \<le> critical_threshold cfg then CRITICAL
      else if level \<le> warning_threshold cfg then WARNING
      else NORMAL)"

text \<open>The ordering the specification asks of the thresholds.\<close>

definition spec_thresholds_valid :: "BatteryConfig \<Rightarrow> bool" where
  "spec_thresholds_valid c =
     (0 \<le> charging_threshold c \<and> charging_threshold c < critical_threshold c
      \<and> critical_threshold c < warning_threshold c \<and> warning_threshold c \<le> 100)"

text \<open>The events that the monitor causes: the two callbacks and the call of the search.\<close>

fun monitor_event :: "event \<Rightarrow> bool" where
  "monitor_event (BatteryCallback level st lk) = True"
| "monitor_event (ChargingCallback level lk) = True"
| "monitor_event (SearchCall lk) = True"
| "monitor_event e = False"

fun is_battery_callback :: "event \<Rightarrow> bool" where
  "is_battery_callback (BatteryCallback level st lk) = True"
| "is_battery_callback e = False"

fun is_charging_callback :: "event \<Rightarrow> bool" where
  "is_charging_callback (ChargingCallback level lk) = True"
| "is_charging_callback e = False"

fun is_search_call :: "event \<Rightarrow> bool" where
  "is_search_call (SearchCall lk) = True"
| "is_search_call e = False"

definition monitor_events :: "sim \<Rightarrow> event list" where
  "monitor_events s = filter monitor_event (trace s)"

text \<open>The commands sent to the drone, in order.\<close>

fun is_command :: "event \<Rightarrow> bool" where
  "is_command (TelloCommand c) = True"
| "is_command e = False"

definition commands :: "sim \<Rightarrow> event list" where
  "commands s = filter is_command (trace s)"

text \<open>What the specification counts: the polls whose classification differs from the
  status held before them, and those among them that enter Critical.\<close>

fun transitions :: "BatteryConfig \<Rightarrow> BatteryStatus \<Rightarrow> int list \<Rightarrow> nat" where
  "transitions cfg st [] = 0"
| "transitions cfg st (level # levels) =
     (if spec_classify cfg level \<noteq> st then 1 else 0)
       + transitions cfg (spec_classify cfg level) levels"

fun critical_entries :: "BatteryConfig \<Rightarrow> BatteryStatus \<Rightarrow> int list \<Rightarrow> nat" where
  "critical_entries cfg st [] = 0"
| "critical_entries cfg st (level # levels) =
     (if spec_classify cfg level \<noteq> st \<and> spec_classify cfg level = CRITICAL then 1 else 0)
       + critical_entries cfg (spec_classify cfg level) levels"

text \<open>The operations on the object, one poll cycle among them.\<close>

datatype operation =
    MonitorCycle
  | ProcessLevel int
  | UpdateConfig "string \<rightharpoonup> int"
  | ManualSearch
  | ResetChargingSpot
  | SetCallbacks "callback option" "callback option" "callback option"
  | StartMonitoring
  | StopMonitoring
  | GetBatteryInfo
  | Cleanup

fun apply_operation :: "tello \<Rightarrow> operation \<Rightarrow> sim \<Rightarrow> sim" where
  "apply_operation env MonitorCycle s = snd (monitor_iteration env s)"
| "apply_operation env (ProcessLevel level) s = snd (process_battery_level env level s)"
| "apply_operation env (UpdateConfig new_config) s = update_config new_config s"
| "apply_operation env ManualSearch s = snd (manual_charging_search env s)"
| "apply_operation env ResetChargingSpot s = reset_charging_spot_status s"
| "apply_operation env (SetCallbacks bc cc sc) s = set_callbacks bc cc sc s"
| "apply_operation env StartMonitoring s = snd (start_monitoring s)"
| "apply_operation env StopMonitoring s = snd (stop_monitoring env s)"
| "apply_operation env GetBatteryInfo s = snd (get_battery_info env s)"
| "apply_operation env Cleanup s = snd (cleanup env s)"

fun run_operations :: "tello \<Rightarrow> operation list \<Rightarrow> sim \<Rightarrow> sim" where
  "run_operations env [] s = s"
| "run_operations env (x # xs) s = run_operations env xs (apply_operation env x s)"

section \<open>What the search leaves alone, and its termination\<close>

lemma steady_tick [simp]: "steady (tick env s) = steady s"
  by (simp add: steady_def tick_def)

lemma steady_sleep [simp]: "steady (sleep d s) = steady s"
  by (simp add: steady_def sleep_def)

lemma steady_emit [simp]: "steady (emit e s) = steady s"
  by (simp add: steady_def emit_def)

lemma steady_write_spots [simp]: "steady (snd (write_spots cs ids s)) = steady s"
proof (induction cs arbitrary: ids s)
  case Nil
  show ?case by simp
next
  case (Cons center rest)
  show ?case
  proof (cases ids)
    case Nil
    then show ?thesis by (simp add: steady_def emit_def)
  next
    case (Cons marker_id ids')
    then show ?thesis by (simp add: Cons.IH) (simp add: steady_def emit_def)
  qed
qed

lemma clock_tick: "clock (tick env s) = clock s + duration env (calls s)"
  by (simp add: tick_def)

lemma clock_sleep [simp]: "clock (sleep d s) = clock s + d"
  by (simp add: sleep_def)

lemma clock_emit [simp]: "clock (emit e s) = clock s"
  by (simp add: emit_def)

lemma calls_tick [simp]: "calls (tick env s) = Suc (calls s)"
  by (simp add: tick_def)

lemma calls_sleep [simp]: "calls (sleep d s) = calls s"
  by (simp add: sleep_def)

lemma calls_emit [simp]: "calls (emit e s) = calls s"
  by (simp add: emit_def)

lemma clock_write_spots [simp]: "clock (snd (write_spots cs ids s)) = clock s"
proof (induction cs arbitrary: ids s)
  case Nil
  show ?case by simp
next
  case (Cons center rest)
  show ?case
    by (cases ids) (simp_all add: Cons.IH emit_def)
qed

lemma calls_write_spots [simp]: "calls (snd (write_spots cs ids s)) = calls s"
proof (induction cs arbitrary: ids s)
  case Nil
  show ?case by simp
next
  case (Cons center rest)
  show ?case
    by (cases ids) (simp_all add: Cons.IH emit_def)
qed

text \<open>The loop over the corners comes to its end when every corner has its id.\<close>

lemma write_spots_result: "fst (write_spots cs ids s) = (length cs \<le> length ids)"
proof (induction cs arbitrary: ids s)
  case Nil
  show ?case by simp
next
  case (Cons center rest)
  show ?case
    by (cases ids) (simp_all add: Cons.IH)
qed

lemma steady_detect [simp]: "steady (snd (detect_aruco_markers env fr s)) = steady s"
  by (simp add: detect_aruco_markers_def split: detection.splits)

lemma clock_detect:
  "clock (snd (detect_aruco_markers env fr s)) = clock s + duration env (calls s)"
  by (simp add: detect_aruco_markers_def clock_tick split: detection.splits)

lemma calls_detect [simp]: "calls (snd (detect_aruco_markers env fr s)) = Suc (calls s)"
  by (simp add: detect_aruco_markers_def split: detection.splits)

lemma steady_read_frame [simp]: "steady (snd (read_frame env s)) = steady s"
  by (simp add: read_frame_def)

lemma steady_refetch [simp]: "steady (snd (refetch_and_detect env s)) = steady s"
  by (cases "frame_at env (calls s)") (simp_all add: refetch_and_detect_def read_frame_def)

lemma clock_refetch: "clock s \<le> clock (snd (refetch_and_detect env s))"
  by (cases "frame_at env (calls s)")
     (simp_all add: refetch_and_detect_def read_frame_def clock_tick clock_detect)

lemma steady_approach [simp]: "steady (snd (approach_charging_spot env s)) = steady s"
  by (simp add: approach_charging_spot_def Let_def)

lemma clock_approach: "clock s \<le> clock (snd (approach_charging_spot env s))"
proof (cases "has_move_forward env \<and> \<not> command_raises env (calls s)")
  case True
  let ?s1 = "sleep 2000 (tick env (emit (TelloCommand (MoveForward (approach_distance (aruco_config s)))) s))"
  have "clock s \<le> clock ?s1" by (simp add: clock_tick)
  also have "\<dots> \<le> clock (snd (refetch_and_detect env ?s1))" by (rule clock_refetch)
  finally show ?thesis using True by (simp add: approach_charging_spot_def Let_def)
next
  case False
  then show ?thesis
    using clock_refetch [of s env] by (auto simp: approach_charging_spot_def Let_def clock_tick)
qed

lemma steady_search_iteration [simp]: "steady (snd (search_iteration env s)) = steady s"
proof (cases "frame_at env (calls s)")
  case None
  then show ?thesis by (simp add: search_iteration_def read_frame_def)
next
  case (Some fr)
  obtain mf s2 where d: "detect_aruco_markers env fr (tick env s) = (mf, s2)"
    by (cases "detect_aruco_markers env fr (tick env s)")
  have s2: "steady s2 = steady s"
    using steady_detect [of env fr "tick env s"] d by simp
  obtain reached s3 where
    a: "(if mf then approach_charging_spot env s2 else (False, s2)) = (reached, s3)"
    by (cases "if mf then approach_charging_spot env s2 else (False, s2)")
  have s3: "steady s3 = steady s"
    using a s2 steady_approach [of env s2] by (cases mf) auto
  show ?thesis
    using Some d a s3 by (simp add: search_iteration_def read_frame_def Let_def)
qed

lemma clock_search_iteration:
  "search_iteration env s = (Continue, s') \<Longrightarrow> clock s + 100 \<le> clock s'"
proof (cases "frame_at env (calls s)")
  case None
  assume "search_iteration env s = (Continue, s')"
  with None show ?thesis
    by (auto simp: search_iteration_def read_frame_def clock_tick)
next
  case (Some fr)
  assume it: "search_iteration env s = (Continue, s')"
  obtain mf s2 where d: "detect_aruco_markers env fr (tick env s) = (mf, s2)"
    by (cases "detect_aruco_markers env fr (tick env s)")
  have s2: "clock s \<le> clock s2"
    using clock_detect [of env fr "tick env s"] d by (simp add: clock_tick)
  obtain reached s3 where
    a: "(if mf then approach_charging_spot env s2 else (False, s2)) = (reached, s3)"
    by (cases "if mf then approach_charging_spot env s2 else (False, s2)")
  have s3: "clock s \<le> clock s3"
    using a s2 clock_approach [of s2 env] by (cases mf) auto
  show ?thesis
    using Some d a s3 it
    by (auto simp: search_iteration_def read_frame_def Let_def clock_tick split: if_splits)
qed

termination search_loop
proof (relation "measure (\<lambda>(env, start_time, s).
         nat (int start_time + search_timeout (aruco_config s) - int (clock s)))")
  show "wf (measure (\<lambda>(env, start_time, s).
         nat (int start_time + search_timeout (aruco_config s) - int (clock s))))"
    by simp
next
  fix env :: tello and start_time :: nat and s s' :: sim and o' :: outcome
  assume c: "int (clock s) - int start_time < search_timeout (aruco_config s)"
    and p: "(o', s') = search_iteration env s" and k: "o' = Continue"
  have it: "search_iteration env s = (Continue, s')"
    using p k by simp
  have "steady s' = steady s"
    using steady_search_iteration [of env s] it by simp
  then have cfg: "aruco_config s' = aruco_config s"
    by (simp add: steady_def)
  have "clock s + 100 \<le> clock s'"
    using clock_search_iteration [OF it] .
  with c cfg show "((env, start_time, s'), (env, start_time, s)) \<in> measure (\<lambda>(env, start_time, s).
         nat (int start_time + search_timeout (aruco_config s) - int (clock s)))"
    by simp
qed

declare search_loop.simps [simp del]

section \<open>Classification of a battery sample\<close>

lemma steady_search_loop [simp]: "steady (snd (search_loop env start_time s)) = steady s"
proof (induction env start_time s rule: search_loop.induct)
  case (1 env start_time s)
  show ?case
  proof (cases "int (clock s) - int start_time < search_timeout (aruco_config s)")
    case False
    then show ?thesis by (simp add: search_loop.simps [of env start_time s])
  next
    case True
    obtain oc s' where it: "search_iteration env s = (oc, s')"
      by (cases "search_iteration env s")
    have s': "steady s' = steady s"
      using steady_search_iteration [of env s] it by simp
    show ?thesis
    proof (cases oc)
      case (Return b)
      with True it s' show ?thesis
        by (simp add: search_loop.simps [of env start_time s])
    next
      case Continue
      have "steady (snd (search_loop env start_time s')) = steady s'"
        using "1.IH" [OF True it [symmetric] Continue] .
      with True it s' Continue show ?thesis
        by (simp add: search_loop.simps [of env start_time s])
    qed
  qed
qed

lemma steady_search_charging_spot [simp]:
  "steady (snd (search_charging_spot env s)) = steady s"
  by (simp add: search_charging_spot_def Let_def)

lemma steady_call_callback [simp]: "steady (snd (call_callback slot e s)) = steady s"
  by (simp add: call_callback_def split: option.splits callback.splits)

lemma steady_handle_critical [simp]: "steady (snd (handle_critical_battery env s)) = steady s"
proof -
  obtain c s1 where cb: "call_callback (charging_callback s)
      (ChargingCallback (last_battery_level s) (lock_held s)) s = (c, s1)"
    by (cases "call_callback (charging_callback s)
      (ChargingCallback (last_battery_level s) (lock_held s)) s")
  have "steady s1 = steady s"
    using steady_call_callback [of "charging_callback s"
        "ChargingCallback (last_battery_level s) (lock_held s)" s] cb by simp
  with cb show ?thesis
    by (cases c) (simp_all add: handle_critical_battery_def)
qed

lemma steady_fields:
  "steady a = steady b \<Longrightarrow>
     battery_config a = battery_config b \<and> aruco_config a = aruco_config b
     \<and> current_battery_status a = current_battery_status b
     \<and> last_battery_level a = last_battery_level b
     \<and> battery_callback a = battery_callback b \<and> charging_callback a = charging_callback b
     \<and> status_callback a = status_callback b \<and> lock_held a = lock_held b
     \<and> is_running a = is_running b \<and> is_monitoring a = is_monitoring b
     \<and> monitor_thread a = monitor_thread b"
  by (simp add: steady_def)

text \<open>A callback that takes the lock comes back exactly when the lock is free.\<close>

lemma call_callback_result:
  "fst (call_callback slot e s) =
     (if slot = Some CallsGetStatus \<and> lock_held s then NeverReturns else Returned)"
  by (simp add: call_callback_def get_status_def emit_def split: option.splits callback.splits)

text \<open>What a poll leaves in the fields that the search does not touch. The lock stays
  held exactly when the poll never returns.\<close>

text \<open>The poll, with the classification named.\<close>

lemma process_unfold:
  "process_battery_level env level s =
     (let s1 = emit (Write LastBatteryLevel True) ((acquire s)\<lparr>last_battery_level := level\<rparr>);
          new_status = spec_classify (battery_config s) level;
          s2 = emit (Write CurrentBatteryStatus True) (s1\<lparr>current_battery_status := new_status\<rparr>)
      in if new_status \<noteq> current_battery_status s then
           (case call_callback (battery_callback s) (BatteryCallback level new_status True) s2 of
              (NeverReturns, s3) \<Rightarrow> (NeverReturns, s3)
            | (Returned, s3) \<Rightarrow>
                if new_status = CRITICAL then
                  (case handle_critical_battery env s3 of
                     (NeverReturns, s4) \<Rightarrow> (NeverReturns, s4)
                   | (Returned, s4) \<Rightarrow> (Returned, release s4))
                else (Returned, release s3))
         else (Returned, release s1))"
  by (simp add: process_battery_level_def Let_def spec_classify_def acquire_def emit_def)

lemma steady_process:
  "steady (snd (process_battery_level env level s)) =
     (battery_config s, aruco_config s, spec_classify (battery_config s) level, level,
      (battery_callback s, charging_callback s, status_callback s),
      fst (process_battery_level env level s) = NeverReturns,
      (is_running s, is_monitoring s, monitor_thread s))"
proof -
  let ?s1 = "emit (Write LastBatteryLevel True) ((acquire s)\<lparr>last_battery_level := level\<rparr>)"
  let ?new = "spec_classify (battery_config s) level"
  let ?s2 = "emit (Write CurrentBatteryStatus True) (?s1\<lparr>current_battery_status := ?new\<rparr>)"
  let ?e = "BatteryCallback level ?new True"
  let ?held = "\<lambda>lk. (battery_config s, aruco_config s, ?new, level,
      (battery_callback s, charging_callback s, status_callback s), lk,
      (is_running s, is_monitoring s, monitor_thread s))"
  have f2: "steady ?s2 = ?held True"
    by (simp add: steady_def emit_def acquire_def)
  have rel: "steady (release x) = ?held False" if "steady x = ?held True" for x
    using that by (simp add: steady_def release_def)
  note unfold = process_unfold [of env level s, unfolded Let_def]
  show ?thesis
  proof (cases "?new \<noteq> current_battery_status s")
    case False
    then have "steady ?s1 = ?held True"
      by (simp add: steady_def emit_def acquire_def)
    from rel [OF this] False show ?thesis by (simp add: unfold)
  next
    case True
    obtain c s3 where cb: "call_callback (battery_callback s) ?e ?s2 = (c, s3)"
      by (cases "call_callback (battery_callback s) ?e ?s2")
    have "steady s3 = steady ?s2"
      using steady_call_callback [of "battery_callback s" ?e ?s2] cb by simp
    then have s3: "steady s3 = ?held True"
      using f2 by (rule trans)
    show ?thesis
    proof (cases c)
      case NeverReturns
      with True cb s3 show ?thesis by (simp add: unfold)
    next
      case Returned
      show ?thesis
      proof (cases "?new = CRITICAL")
        case False
        with True cb Returned rel [OF s3] show ?thesis by (simp add: unfold)
      next
        case crit: True
        obtain c' s4 where h: "handle_critical_battery env s3 = (c', s4)"
          by (cases "handle_critical_battery env s3")
        have "steady s4 = steady s3"
          using steady_handle_critical [of env s3] h by simp
        then have s4: "steady s4 = ?held True"
          using s3 by (rule trans)
        show ?thesis
        proof (cases c')
          case NeverReturns
          with True cb Returned crit h s4 show ?thesis by (simp add: unfold)
        next
          case Returned': Returned
          with True cb Returned crit h rel [OF s4] show ?thesis by (simp add: unfold)
        qed
      qed
    qed
  qed
qed

lemma status_after_process:
  "current_battery_status (snd (process_battery_level env level s))
     = spec_classify (battery_config s) level"
  using steady_process [of env level s] by (simp add: steady_def)

lemma config_after_process:
  "battery_config (snd (process_battery_level env level s)) = battery_config s"
  using steady_process [of env level s] by (simp add: steady_def)

lemma callbacks_after_process [simp]:
  "battery_callback (snd (process_battery_level env level s)) = battery_callback s"
  "charging_callback (snd (process_battery_level env level s)) = charging_callback s"
  using steady_process [of env level s] by (simp_all add: steady_def)

text \<open>With no callback that calls \<open>get_status\<close>, every poll returns.\<close>

lemma process_returns:
  assumes "battery_callback s \<noteq> Some CallsGetStatus" "charging_callback s \<noteq> Some CallsGetStatus"
  shows "fst (process_battery_level env level s) = Returned"
proof -
  have cb: "fst (call_callback (battery_callback s) e x) = Returned" for e x
    using assms(1) by (simp add: call_callback_result)
  have h: "fst (handle_critical_battery env x) = Returned"
    if "charging_callback x = charging_callback s" for x
  proof -
    obtain c s1 where c: "call_callback (charging_callback x)
        (ChargingCallback (last_battery_level x) (lock_held x)) x = (c, s1)"
      by (cases "call_callback (charging_callback x)
        (ChargingCallback (last_battery_level x) (lock_held x)) x")
    have "c = Returned"
      using call_callback_result [of "charging_callback x"
          "ChargingCallback (last_battery_level x) (lock_held x)" x] c that assms(2) by simp
    with c show ?thesis by (simp add: handle_critical_battery_def)
  qed
  let ?s1 = "emit (Write LastBatteryLevel True) ((acquire s)\<lparr>last_battery_level := level\<rparr>)"
  let ?new = "spec_classify (battery_config s) level"
  let ?s2 = "emit (Write CurrentBatteryStatus True) (?s1\<lparr>current_battery_status := ?new\<rparr>)"
  obtain c s3 where c: "call_callback (battery_callback s) (BatteryCallback level ?new True) ?s2 = (c, s3)"
    by (cases "call_callback (battery_callback s) (BatteryCallback level ?new True) ?s2")
  have cr: "c = Returned" using cb [of "BatteryCallback level ?new True" ?s2] c by simp
  have st: "steady s3 = steady ?s2"
    using steady_call_callback [of "battery_callback s" "BatteryCallback level ?new True" ?s2] c
    by simp
  have "charging_callback s3 = charging_callback ?s2"
    using steady_fields [OF st] by blast
  then have "charging_callback s3 = charging_callback s"
    by (simp add: emit_def acquire_def)
  from h [OF this] obtain s4 where h4: "handle_critical_battery env s3 = (Returned, s4)"
    by (cases "handle_critical_battery env s3") simp
  show ?thesis
    using c cr h4
    by (simp add: process_unfold [of env level s, unfolded Let_def])
qed

text \<open>
  Claim C1. The status the monitor holds after processing a sample is a function of the
  sample and the three thresholds alone, with the precedence charging, critical (both
  Critical), warning (Warning), else Normal; this holds for every integer sample, so for
  every percentage in [0,100], and also for a poll that a callback keeps from returning,
  since the status is stored before the callback is called. With the thresholds 20, 10
  and 5 the samples 25, 18, 9, 3 are classified Normal, Warning, Critical, Critical,
  whatever the search does.
\<close>

theorem classification_by_thresholds:
  "current_battery_status (snd (process_battery_level env p s))
     = spec_classify (battery_config s) p
   \<and> observed_statuses env [25, 18, 9, 3] (EnhancedSimulation_init Map.empty)
       = [NORMAL, WARNING, CRITICAL, CRITICAL]"
proof -
  let ?s0 = "EnhancedSimulation_init Map.empty"
  have step: "\<exists>s1. process_battery_level env level x = (Returned, s1)
      \<and> current_battery_status s1 = spec_classify (battery_config x) level
      \<and> battery_config s1 = battery_config x
      \<and> battery_callback s1 = None \<and> charging_callback s1 = None"
    if "battery_callback x = None" "charging_callback x = None" for level x
  proof -
    have "fst (process_battery_level env level x) = Returned"
      by (rule process_returns) (simp_all add: that)
    then obtain s1 where p: "process_battery_level env level x = (Returned, s1)"
      by (cases "process_battery_level env level x") simp
    with status_after_process [of env level x] config_after_process [of env level x]
      callbacks_after_process [of env level x] that
    show ?thesis by simp
  qed
  have i: "battery_callback ?s0 = None" "charging_callback ?s0 = None"
    "battery_config ?s0 = \<lparr>warning_threshold = 20, critical_threshold = 10,
       charging_threshold = 5, check_interval = 5000\<rparr>"
    by (simp_all add: EnhancedSimulation_init_def config_get_def)
  from step [OF i(1,2), of 25] obtain s1 where s1: "process_battery_level env 25 ?s0 = (Returned, s1)"
    "current_battery_status s1 = spec_classify (battery_config ?s0) 25"
    "battery_config s1 = battery_config ?s0" "battery_callback s1 = None" "charging_callback s1 = None"
    by blast
  from step [OF s1(4,5), of 18] obtain s2 where s2: "process_battery_level env 18 s1 = (Returned, s2)"
    "current_battery_status s2 = spec_classify (battery_config s1) 18"
    "battery_config s2 = battery_config s1" "battery_callback s2 = None" "charging_callback s2 = None"
    by blast
  from step [OF s2(4,5), of 9] obtain s3 where s3: "process_battery_level env 9 s2 = (Returned, s3)"
    "current_battery_status s3 = spec_classify (battery_config s2) 9"
    "battery_config s3 = battery_config s2" "battery_callback s3 = None" "charging_callback s3 = None"
    by blast
  from step [OF s3(4,5), of 3] obtain s4 where s4: "process_battery_level env 3 s3 = (Returned, s4)"
    "current_battery_status s4 = spec_classify (battery_config s3) 3"
    by blast
  have "observed_statuses env [25, 18, 9, 3] ?s0 = [NORMAL, WARNING, CRITICAL, CRITICAL]"
    using s1 s2 s3 s4 i(3) by (simp add: spec_classify_def)
  then show ?thesis
    by (simp add: status_after_process)
qed

section \<open>Retries of the command executor\<close>







section \<open>Threshold configuration\<close>

lemma battery_config_update_config:
  "battery_config (update_config new_config s) =
     \<lparr> warning_threshold = config_get new_config ''warning_threshold'' (warning_threshold (battery_config s)),
       critical_threshold = config_get new_config ''critical_threshold'' (critical_threshold (battery_config s)),
       charging_threshold = config_get new_config ''charging_threshold'' (charging_threshold (battery_config s)),
       check_interval = config_get new_config ''check_interval'' (check_interval (battery_config s)) \<rparr>"
  by (simp add: update_config_def Let_def acquire_def release_def config_get_def
      split: option.splits)

text \<open>
  Claim C5, as amended. Nothing validates the thresholds. The constructor stores each
  threshold of the configuration as it is given (20, 10 and 5 for those not given), and
  \<open>update_config\<close> stores each threshold it is given and keeps the others. The defaults
  satisfy the ordering \<open>0 \<le> charging < critical < warning \<le> 100\<close>.
\<close>

theorem thresholds_stored_as_given:
  "warning_threshold (battery_config (EnhancedSimulation_init config))
     = config_get config ''warning_threshold'' 20
   \<and> critical_threshold (battery_config (EnhancedSimulation_init config))
     = config_get config ''critical_threshold'' 10
   \<and> charging_threshold (battery_config (EnhancedSimulation_init config))
     = config_get config ''charging_threshold'' 5
   \<and> warning_threshold (battery_config (update_config new_config s))
     = config_get new_config ''warning_threshold'' (warning_threshold (battery_config s))
   \<and> critical_threshold (battery_config (update_config new_config s))
     = config_get new_config ''critical_threshold'' (critical_threshold (battery_config s))
   \<and> charging_threshold (battery_config (update_config new_config s))
     = config_get new_config ''charging_threshold'' (charging_threshold (battery_config s))
   \<and> spec_thresholds_valid (battery_config (EnhancedSimulation_init Map.empty))"
  by (simp add: battery_config_update_config)
     (simp add: EnhancedSimulation_init_def spec_thresholds_valid_def config_get_def)

text \<open>A warning threshold of 3 is accepted by the constructor and by \<open>update_config\<close>,
  below the critical threshold of 10.\<close>

theorem thresholds_unordered_counterexample:
  "\<not> spec_thresholds_valid
       (battery_config (EnhancedSimulation_init (Map.empty(''warning_threshold'' \<mapsto> 3))))
   \<and> \<not> spec_thresholds_valid
       (battery_config (update_config (Map.empty(''warning_threshold'' \<mapsto> 3))
          (EnhancedSimulation_init Map.empty)))"
  by (simp add: battery_config_update_config)
     (simp add: EnhancedSimulation_init_def spec_thresholds_valid_def config_get_def)

section \<open>The battery report\<close>

lemma get_battery_level_fields [simp]:
  "last_battery_level (snd (get_battery_level env s)) = last_battery_level s"
  "battery_config (snd (get_battery_level env s)) = battery_config s"
  "current_battery_status (snd (get_battery_level env s)) = current_battery_status s"
  by (simp_all add: get_battery_level_def tick_def split: battery_read.splits option.splits)

text \<open>
  Claim C8. When the live read gives no valid value, the report's level is the cached
  \<open>last_battery_level\<close>, and \<open>is_low\<close> and \<open>is_critical\<close> compare that level with the
  warning and the critical threshold of the configuration in force.
\<close>

theorem get_battery_info_fallback:
  "fst (get_battery_level env s) = None \<Longrightarrow>
     current_level (fst (get_battery_info env s)) = last_battery_level s
   \<and> is_low (fst (get_battery_info env s))
       = (last_battery_level s \<le> warning_threshold (battery_config s))
   \<and> is_critical (fst (get_battery_info env s))
       = (last_battery_level s \<le> critical_threshold (battery_config s))"
proof -
  assume n: "fst (get_battery_level env s) = None"
  obtain r s1 where g: "get_battery_level env s = (r, s1)"
    by (cases "get_battery_level env s")
  with n have r: "r = None" by simp
  have "last_battery_level s1 = last_battery_level s" "battery_config s1 = battery_config s"
    using get_battery_level_fields [of env s] g by simp_all
  with g r show ?thesis
    by (simp add: get_battery_info_def Let_def)
qed

theorem get_battery_info_fallback_witness:
  "fst (get_battery_level blind_drone ((EnhancedSimulation_init Map.empty)\<lparr>last_battery_level := 15\<rparr>)) = None
   \<and> current_level (fst (get_battery_info blind_drone
        ((EnhancedSimulation_init Map.empty)\<lparr>last_battery_level := 15\<rparr>))) = 15
   \<and> is_low (fst (get_battery_info blind_drone
        ((EnhancedSimulation_init Map.empty)\<lparr>last_battery_level := 15\<rparr>)))
   \<and> \<not> is_critical (fst (get_battery_info blind_drone
        ((EnhancedSimulation_init Map.empty)\<lparr>last_battery_level := 15\<rparr>)))"
proof -
  let ?s = "(EnhancedSimulation_init Map.empty)\<lparr>last_battery_level := 15\<rparr>"
  have h: "fst (get_battery_level blind_drone ?s) = None"
    by (simp add: get_battery_level_def blind_drone_def)
  from get_battery_info_fallback [OF h] h show ?thesis
    by (simp add: EnhancedSimulation_init_def config_get_def)
qed

section \<open>Starting and stopping the monitor\<close>




section \<open>Callbacks and searches of the monitor\<close>

lemma monitor_events_emit:
  "monitor_events (emit e s) = monitor_events s @ (if monitor_event e then [e] else [])"
  by (simp add: monitor_events_def emit_def)

lemma monitor_events_tick [simp]: "monitor_events (tick env s) = monitor_events s"
  by (simp add: monitor_events_def tick_def)

lemma monitor_events_sleep [simp]: "monitor_events (sleep d s) = monitor_events s"
  by (simp add: monitor_events_def sleep_def)

lemma monitor_events_write_spots [simp]:
  "monitor_events (snd (write_spots cs ids s)) = monitor_events s"
proof (induction cs arbitrary: ids s)
  case Nil
  show ?case by simp
next
  case (Cons center rest)
  show ?case
    by (cases ids) (simp_all add: Cons.IH monitor_events_emit, simp_all add: monitor_events_def)
qed

lemma monitor_events_detect [simp]:
  "monitor_events (snd (detect_aruco_markers env fr s)) = monitor_events s"
  by (simp add: detect_aruco_markers_def split: detection.splits)

lemma monitor_events_refetch [simp]:
  "monitor_events (snd (refetch_and_detect env s)) = monitor_events s"
  by (cases "frame_at env (calls s)") (simp_all add: refetch_and_detect_def read_frame_def)

lemma monitor_events_approach [simp]:
  "monitor_events (snd (approach_charging_spot env s)) = monitor_events s"
  by (simp add: approach_charging_spot_def Let_def monitor_events_emit)

lemma monitor_events_search_iteration [simp]:
  "monitor_events (snd (search_iteration env s)) = monitor_events s"
proof (cases "frame_at env (calls s)")
  case None
  then show ?thesis by (simp add: search_iteration_def read_frame_def)
next
  case (Some fr)
  obtain mf s2 where d: "detect_aruco_markers env fr (tick env s) = (mf, s2)"
    by (cases "detect_aruco_markers env fr (tick env s)")
  have s2: "monitor_events s2 = monitor_events s"
    using monitor_events_detect [of env fr "tick env s"] d by simp
  obtain reached s3 where
    a: "(if mf then approach_charging_spot env s2 else (False, s2)) = (reached, s3)"
    by (cases "if mf then approach_charging_spot env s2 else (False, s2)")
  have s3: "monitor_events s3 = monitor_events s"
    using a s2 monitor_events_approach [of env s2] by (cases mf) auto
  show ?thesis
    using Some d a s3
    by (simp add: search_iteration_def read_frame_def Let_def monitor_events_emit)
qed

lemma monitor_events_search_loop [simp]:
  "monitor_events (snd (search_loop env start_time s)) = monitor_events s"
proof (induction env start_time s rule: search_loop.induct)
  case (1 env start_time s)
  show ?case
  proof (cases "int (clock s) - int start_time < search_timeout (aruco_config s)")
    case False
    then show ?thesis by (simp add: search_loop.simps [of env start_time s])
  next
    case True
    obtain oc s' where it: "search_iteration env s = (oc, s')"
      by (cases "search_iteration env s")
    have s': "monitor_events s' = monitor_events s"
      using monitor_events_search_iteration [of env s] it by simp
    show ?thesis
    proof (cases oc)
      case (Return b)
      with True it s' show ?thesis
        by (simp add: search_loop.simps [of env start_time s])
    next
      case Continue
      have "monitor_events (snd (search_loop env start_time s')) = monitor_events s'"
        using "1.IH" [OF True it [symmetric] Continue] .
      with True it s' Continue show ?thesis
        by (simp add: search_loop.simps [of env start_time s])
    qed
  qed
qed

lemma monitor_events_search_charging_spot:
  "monitor_events (snd (search_charging_spot env s)) = monitor_events s @ [SearchCall (lock_held s)]"
  by (simp add: search_charging_spot_def Let_def monitor_events_emit)

lemma emit_fields [simp]:
  "lock_held (emit e s) = lock_held s"
  "last_battery_level (emit e s) = last_battery_level s"
  "current_battery_status (emit e s) = current_battery_status s"
  "battery_config (emit e s) = battery_config s"
  "battery_callback (emit e s) = battery_callback s"
  "charging_callback (emit e s) = charging_callback s"
  by (simp_all add: emit_def)

text \<open>A callback that is set is called once, whether or not it comes back.\<close>

lemma monitor_events_call_callback:
  "monitor_events (snd (call_callback slot e s)) =
     monitor_events s @ (if slot \<noteq> None \<and> monitor_event e then [e] else [])"
  by (simp add: call_callback_def monitor_events_emit split: option.splits callback.splits)

lemma lock_held_call_callback [simp]:
  "lock_held (snd (call_callback slot e s)) = lock_held s"
  using steady_fields [OF steady_call_callback [of slot e s]] by blast

text \<open>The search is called only when the critical-entry callback has come back.\<close>

lemma monitor_events_handle_critical:
  "monitor_events (snd (handle_critical_battery env s)) =
     monitor_events s
       @ (if charging_callback s \<noteq> None
          then [ChargingCallback (last_battery_level s) (lock_held s)] else [])
       @ (if charging_callback s = Some CallsGetStatus \<and> lock_held s then []
          else [SearchCall (lock_held s)])"
proof -
  let ?e = "ChargingCallback (last_battery_level s) (lock_held s)"
  obtain c s1 where cb: "call_callback (charging_callback s) ?e s = (c, s1)"
    by (cases "call_callback (charging_callback s) ?e s")
  have ev: "monitor_events s1 = monitor_events s @ (if charging_callback s \<noteq> None then [?e] else [])"
    using monitor_events_call_callback [of "charging_callback s" ?e s] cb by simp
  have lk: "lock_held s1 = lock_held s"
    using lock_held_call_callback [of "charging_callback s" ?e s] cb by simp
  have c: "c = (if charging_callback s = Some CallsGetStatus \<and> lock_held s
                then NeverReturns else Returned)"
    using call_callback_result [of "charging_callback s" ?e s] cb by simp
  show ?thesis
    using cb ev lk c
    by (simp add: handle_critical_battery_def monitor_events_search_charging_spot)
qed

lemma monitor_events_release [simp]: "monitor_events (release s) = monitor_events s"
  by (simp add: monitor_events_def release_def)

text \<open>The events of one poll cycle. Both callbacks are called with the lock held, so one
  that calls \<open>get_status\<close> never comes back, and what follows it is not reached.\<close>

lemma monitor_events_process:
  "monitor_events (snd (process_battery_level env level s)) =
     monitor_events s @
     (if spec_classify (battery_config s) level \<noteq> current_battery_status s then
        (if battery_callback s \<noteq> None
         then [BatteryCallback level (spec_classify (battery_config s) level) True] else [])
        @ (if spec_classify (battery_config s) level = CRITICAL
              \<and> battery_callback s \<noteq> Some CallsGetStatus then
             (if charging_callback s \<noteq> None then [ChargingCallback level True] else [])
             @ (if charging_callback s \<noteq> Some CallsGetStatus then [SearchCall True] else [])
           else [])
      else [])"
proof -
  let ?s1 = "emit (Write LastBatteryLevel True) ((acquire s)\<lparr>last_battery_level := level\<rparr>)"
  let ?new = "spec_classify (battery_config s) level"
  let ?s2 = "emit (Write CurrentBatteryStatus True) (?s1\<lparr>current_battery_status := ?new\<rparr>)"
  let ?e = "BatteryCallback level ?new True"
  note unfold = process_unfold [of env level s, unfolded Let_def]
  have e1: "monitor_events ?s1 = monitor_events s"
    by (simp add: monitor_events_def emit_def acquire_def)
  have e2: "monitor_events ?s2 = monitor_events s"
    by (simp add: monitor_events_def emit_def acquire_def)
  have f2: "lock_held ?s2" "last_battery_level ?s2 = level"
    "charging_callback ?s2 = charging_callback s"
    by (simp_all add: emit_def acquire_def)
  show ?thesis
  proof (cases "?new \<noteq> current_battery_status s")
    case False
    with e1 show ?thesis by (simp add: unfold)
  next
    case True
    obtain c s3 where cb: "call_callback (battery_callback s) ?e ?s2 = (c, s3)"
      by (cases "call_callback (battery_callback s) ?e ?s2")
    have ev: "monitor_events s3 = monitor_events s @ (if battery_callback s \<noteq> None then [?e] else [])"
      using monitor_events_call_callback [of "battery_callback s" ?e ?s2] cb e2 by simp
    have c: "c = (if battery_callback s = Some CallsGetStatus then NeverReturns else Returned)"
      using call_callback_result [of "battery_callback s" ?e ?s2] cb f2(1) by simp
    have st: "steady s3 = steady ?s2"
      using steady_call_callback [of "battery_callback s" ?e ?s2] cb by simp
    have f3: "lock_held s3" "last_battery_level s3 = level"
      "charging_callback s3 = charging_callback s"
      using steady_fields [OF st] f2 by simp_all
    show ?thesis
    proof (cases "battery_callback s = Some CallsGetStatus")
      case blocks: True
      with True cb c ev show ?thesis by (simp add: unfold)
    next
      case returns: False
      with c have cr: "c = Returned" by simp
      show ?thesis
      proof (cases "?new = CRITICAL")
        case False
        with True cb cr ev returns show ?thesis by (simp add: unfold)
      next
        case crit: True
        obtain c' s4 where h: "handle_critical_battery env s3 = (c', s4)"
          by (cases "handle_critical_battery env s3")
        have ev4: "monitor_events s4 = monitor_events s3
            @ (if charging_callback s \<noteq> None then [ChargingCallback level True] else [])
            @ (if charging_callback s = Some CallsGetStatus then [] else [SearchCall True])"
          using monitor_events_handle_critical [of env s3] h f3 by simp
        show ?thesis
          using True cb cr crit h ev ev4 returns
          by (cases c') (simp_all add: unfold)
      qed
    qed
  qed
qed

lemma battery_callbacks_of_monitor_events:
  "filter is_battery_callback (trace s) = filter is_battery_callback (monitor_events s)"
proof -
  have "(\<lambda>e. monitor_event e \<and> is_battery_callback e) = is_battery_callback"
    by (rule ext) (case_tac e, simp_all)
  then show ?thesis by (simp add: monitor_events_def)
qed

lemma charging_callbacks_of_monitor_events:
  "filter is_charging_callback (trace s) = filter is_charging_callback (monitor_events s)"
proof -
  have "(\<lambda>e. monitor_event e \<and> is_charging_callback e) = is_charging_callback"
    by (rule ext) (case_tac e, simp_all)
  then show ?thesis by (simp add: monitor_events_def)
qed

lemma search_calls_of_monitor_events:
  "filter is_search_call (trace s) = filter is_search_call (monitor_events s)"
proof -
  have "(\<lambda>e. monitor_event e \<and> is_search_call e) = is_search_call"
    by (rule ext) (case_tac e, simp_all)
  then show ?thesis by (simp add: monitor_events_def)
qed

text \<open>
  With callbacks that return or raise, the monitor does what the claim says: every
  cycle returns, the battery-change callback is called once for each poll whose
  classification differs from the status held before it, and the critical-entry callback
  and the search once for each such poll that enters Critical.
\<close>

lemma callbacks_once_when_callbacks_return:
  assumes "battery_callback s = Some b" "b \<noteq> CallsGetStatus"
    and "charging_callback s = Some c" "c \<noteq> CallsGetStatus"
  shows "fst (poll_cycles env levels s) = Returned
    \<and> length (filter is_battery_callback (trace (snd (poll_cycles env levels s)))) =
        length (filter is_battery_callback (trace s))
          + transitions (battery_config s) (current_battery_status s) levels
    \<and> length (filter is_charging_callback (trace (snd (poll_cycles env levels s)))) =
        length (filter is_charging_callback (trace s))
          + critical_entries (battery_config s) (current_battery_status s) levels
    \<and> length (filter is_search_call (trace (snd (poll_cycles env levels s)))) =
        length (filter is_search_call (trace s))
          + critical_entries (battery_config s) (current_battery_status s) levels"
  using assms(1,3)
proof (induction levels arbitrary: s)
  case Nil
  then show ?case by simp
next
  case (Cons level levels)
  have "fst (process_battery_level env level s) = Returned"
    by (rule process_returns) (use Cons.prems assms(2,4) in simp_all)
  then obtain s1 where p: "process_battery_level env level s = (Returned, s1)"
    by (cases "process_battery_level env level s") simp
  have cb: "battery_callback s1 = Some b" "charging_callback s1 = Some c"
    using callbacks_after_process [of env level s] p Cons.prems by simp_all
  have f: "current_battery_status s1 = spec_classify (battery_config s) level"
    "battery_config s1 = battery_config s"
    using status_after_process [of env level s] config_after_process [of env level s] p
    by simp_all
  have ev: "monitor_events s1 = monitor_events s @
     (if spec_classify (battery_config s) level \<noteq> current_battery_status s then
        [BatteryCallback level (spec_classify (battery_config s) level) True]
        @ (if spec_classify (battery_config s) level = CRITICAL
           then [ChargingCallback level True, SearchCall True] else [])
      else [])"
    using monitor_events_process [of env level s] p Cons.prems assms(2,4) by simp
  show ?case
    using Cons.IH [OF cb] p f ev
    by (simp add: battery_callbacks_of_monitor_events charging_callbacks_of_monitor_events
        search_calls_of_monitor_events)
qed

text \<open>
  Claim C2, on the code. A battery-change callback that calls \<open>get_status()\<close> is
  called with the lock held and never comes back. The poll at 9 percent from Normal
  stores Critical and calls that callback once; the poll never returns, the lock stays
  held, and for this one transition into Critical the critical-entry callback and the
  search are called zero times, where the claim counts one of each.
\<close>

theorem callback_under_lock_blocks_critical_handling:
  "critical_entries (battery_config (EnhancedSimulation_init Map.empty)) NORMAL [9] = 1
   \<and> fst (poll_cycles bare_drone [9]
        (set_callbacks (Some CallsGetStatus) (Some Returns) None
           (EnhancedSimulation_init Map.empty))) = NeverReturns
   \<and> current_battery_status (snd (poll_cycles bare_drone [9]
        (set_callbacks (Some CallsGetStatus) (Some Returns) None
           (EnhancedSimulation_init Map.empty)))) = CRITICAL
   \<and> lock_held (snd (poll_cycles bare_drone [9]
        (set_callbacks (Some CallsGetStatus) (Some Returns) None
           (EnhancedSimulation_init Map.empty))))
   \<and> filter monitor_event (trace (snd (poll_cycles bare_drone [9]
        (set_callbacks (Some CallsGetStatus) (Some Returns) None
           (EnhancedSimulation_init Map.empty))))) = [BatteryCallback 9 CRITICAL True]
   \<and> length (filter is_charging_callback (trace (snd (poll_cycles bare_drone [9]
        (set_callbacks (Some CallsGetStatus) (Some Returns) None
           (EnhancedSimulation_init Map.empty)))))) = 0
   \<and> length (filter is_search_call (trace (snd (poll_cycles bare_drone [9]
        (set_callbacks (Some CallsGetStatus) (Some Returns) None
           (EnhancedSimulation_init Map.empty)))))) = 0"
proof -
  let ?s = "set_callbacks (Some CallsGetStatus) (Some Returns) None
           (EnhancedSimulation_init Map.empty)"
  have p: "process_battery_level bare_drone 9 ?s =
      (NeverReturns,
       ?s\<lparr>lock_held := True, last_battery_level := 9, current_battery_status := CRITICAL,
          trace := [Write LastBatteryLevel True, Write CurrentBatteryStatus True,
                    BatteryCallback 9 CRITICAL True]\<rparr>)"
    by (simp add: process_battery_level_def Let_def call_callback_def get_status_def
        acquire_def emit_def set_callbacks_def EnhancedSimulation_init_def config_get_def)
  show ?thesis
    by (simp add: p) (simp add: spec_classify_def EnhancedSimulation_init_def config_get_def)
qed

section \<open>Reachable battery statuses\<close>

lemma spec_classify_not_charging: "spec_classify cfg level \<noteq> CHARGING"
  by (simp add: spec_classify_def)

lemma status_monitor_iteration:
  "current_battery_status s \<noteq> CHARGING \<Longrightarrow>
   current_battery_status (snd (monitor_iteration env s)) \<noteq> CHARGING"
proof -
  assume a: "current_battery_status s \<noteq> CHARGING"
  obtain r s1 where g: "get_battery_level env s = (r, s1)"
    by (cases "get_battery_level env s")
  have s1: "current_battery_status s1 = current_battery_status s"
    using get_battery_level_fields(3) [of env s] g by simp
  show ?thesis
  proof (cases r)
    case None
    with g s1 a show ?thesis by (simp add: monitor_iteration_def sleep_def)
  next
    case (Some level)
    obtain c s2 where p: "process_battery_level env level s1 = (c, s2)"
      by (cases "process_battery_level env level s1")
    have "current_battery_status s2 \<noteq> CHARGING"
      using status_after_process [of env level s1] p by (simp add: spec_classify_not_charging)
    with g Some p show ?thesis
      by (cases c) (simp_all add: monitor_iteration_def sleep_def)
  qed
qed

lemma status_search:
  "current_battery_status (snd (search_charging_spot env s)) = current_battery_status s"
  using steady_search_charging_spot [of env s] by (simp add: steady_def)

lemma status_apply_operation:
  "current_battery_status s \<noteq> CHARGING \<Longrightarrow>
   current_battery_status (apply_operation env x s) \<noteq> CHARGING"
proof (cases x)
  case MonitorCycle
  assume "current_battery_status s \<noteq> CHARGING"
  with MonitorCycle show ?thesis by (simp add: status_monitor_iteration)
next
  case (ProcessLevel level)
  then show ?thesis by (simp add: status_after_process spec_classify_not_charging)
next
  case (UpdateConfig new_config)
  assume "current_battery_status s \<noteq> CHARGING"
  with UpdateConfig show ?thesis
    by (simp add: update_config_def Let_def acquire_def release_def)
next
  case ManualSearch
  assume "current_battery_status s \<noteq> CHARGING"
  with ManualSearch show ?thesis by (simp add: manual_charging_search_def status_search)
next
  case ResetChargingSpot
  assume "current_battery_status s \<noteq> CHARGING"
  with ResetChargingSpot show ?thesis
    by (simp add: reset_charging_spot_status_def Let_def acquire_def release_def emit_def)
next
  case (SetCallbacks bc cc sc)
  assume "current_battery_status s \<noteq> CHARGING"
  with SetCallbacks show ?thesis by (simp add: set_callbacks_def)
next
  case StartMonitoring
  assume "current_battery_status s \<noteq> CHARGING"
  with StartMonitoring show ?thesis by (simp add: start_monitoring_def)
next
  case StopMonitoring
  assume "current_battery_status s \<noteq> CHARGING"
  with StopMonitoring show ?thesis by (simp add: stop_monitoring_def Let_def)
next
  case GetBatteryInfo
  assume a: "current_battery_status s \<noteq> CHARGING"
  obtain r s1 where g: "get_battery_level env s = (r, s1)"
    by (cases "get_battery_level env s")
  have "current_battery_status s1 = current_battery_status s"
    using get_battery_level_fields(3) [of env s] g by simp
  with GetBatteryInfo g a show ?thesis by (simp add: get_battery_info_def Let_def)
next
  case Cleanup
  assume "current_battery_status s \<noteq> CHARGING"
  with Cleanup show ?thesis by (simp add: cleanup_def stop_monitoring_def Let_def)
qed

lemma status_run_operations:
  "current_battery_status s \<noteq> CHARGING \<Longrightarrow>
   current_battery_status (run_operations env xs s) \<noteq> CHARGING"
  by (induction xs arbitrary: s) (simp_all add: status_apply_operation)

text \<open>
  Claim C10. Processing a sample never stores Charging, whatever the state, and from
  the initial state (status Normal) no sequence of operations (poll cycles, processed
  samples, configuration updates, searches, resets, callback settings, starts, stops,
  reports) leads to a state whose status is Charging: the status is always one of
  Normal, Warning and Critical.
\<close>

theorem status_never_charging:
  "current_battery_status (snd (process_battery_level env level s)) \<noteq> CHARGING
   \<and> current_battery_status (EnhancedSimulation_init config) = NORMAL
   \<and> current_battery_status (run_operations env xs (EnhancedSimulation_init config))
       \<in> {NORMAL, WARNING, CRITICAL}"
proof -
  have i: "current_battery_status (EnhancedSimulation_init config) = NORMAL"
    by (simp add: EnhancedSimulation_init_def)
  then have "current_battery_status (run_operations env xs (EnhancedSimulation_init config))
      \<noteq> CHARGING"
    by (intro status_run_operations) simp
  then have "current_battery_status (run_operations env xs (EnhancedSimulation_init config))
      \<in> {NORMAL, WARNING, CRITICAL}"
    by (cases "current_battery_status (run_operations env xs (EnhancedSimulation_init config))")
       simp_all
  with i show ?thesis
    by (simp add: status_after_process spec_classify_not_charging)
qed

section \<open>The approach and the search\<close>

lemma commands_emit:
  "commands (emit e s) = commands s @ (if is_command e then [e] else [])"
  by (simp add: commands_def emit_def)

lemma commands_tick [simp]: "commands (tick env s) = commands s"
  by (simp add: commands_def tick_def)

lemma commands_sleep [simp]: "commands (sleep d s) = commands s"
  by (simp add: commands_def sleep_def)

lemma commands_write_spots [simp]: "commands (snd (write_spots cs ids s)) = commands s"
proof (induction cs arbitrary: ids s)
  case Nil
  show ?case by simp
next
  case (Cons center rest)
  show ?case
    by (cases ids) (simp_all add: Cons.IH commands_emit, simp_all add: commands_def)
qed

lemma commands_detect [simp]: "commands (snd (detect_aruco_markers env fr s)) = commands s"
  by (simp add: detect_aruco_markers_def split: detection.splits)

lemma commands_refetch [simp]: "commands (snd (refetch_and_detect env s)) = commands s"
  by (cases "frame_at env (calls s)") (simp_all add: refetch_and_detect_def read_frame_def)

lemma aruco_config_emit [simp]: "aruco_config (emit e s) = aruco_config s"
  by (simp add: emit_def)

lemma aruco_config_tick [simp]: "aruco_config (tick env s) = aruco_config s"
  by (simp add: tick_def)

text \<open>The detection reports a marker when the detector returns ids and the loop over
  the corners comes to its end.\<close>

lemma detect_result:
  "fst (detect_aruco_markers env fr s) =
     (\<exists>cs ids. detectMarkers env fr = Ids cs ids \<and> length cs \<le> length ids)"
  by (simp add: detect_aruco_markers_def write_spots_result split: detection.splits)

text \<open>The path of an exception after the writes: with a corner and no id for it the
  detection returns \<open>False\<close> and the flag of the charging spot is set all the same.\<close>

lemma detect_raises_after_write:
  "detectMarkers env fr = Ids (center # rest) [] \<Longrightarrow>
   \<not> fst (detect_aruco_markers env fr s)
   \<and> charging_spot_found (snd (detect_aruco_markers env fr s))
   \<and> charging_spot_position (snd (detect_aruco_markers env fr s)) = Some center"
  by (simp add: detect_aruco_markers_def emit_def)

lemma refetch_result:
  "fst (refetch_and_detect env s) =
     (\<exists>fr cs ids. frame_at env (calls s) = Some fr \<and> detectMarkers env fr = Ids cs ids
        \<and> length cs \<le> length ids)"
  by (cases "frame_at env (calls s)")
     (simp_all add: refetch_and_detect_def read_frame_def detect_result)


lemma approach_success_iff:
  "fst (approach_charging_spot env s) =
     ((has_move_forward env \<longrightarrow> \<not> command_raises env (calls s)) \<and>
      (\<exists>fr cs ids.
         frame_at env (if has_move_forward env then Suc (calls s) else calls s) = Some fr
         \<and> detectMarkers env fr = Ids cs ids \<and> length cs \<le> length ids))"
  by (simp add: approach_charging_spot_def Let_def refetch_result)




lemma search_iteration_success:
  assumes fr: "frame_at env (calls s) = Some fr"
    and d: "detectMarkers env fr = Ids cs ids" "length cs \<le> length ids"
    and a: "fst (approach_charging_spot env (snd (detect_aruco_markers env fr (tick env s))))"
  shows "search_iteration env s =
    (Return True, snd (approach_charging_spot env (snd (detect_aruco_markers env fr (tick env s)))))"
proof -
  obtain mf s2 where dm: "detect_aruco_markers env fr (tick env s) = (mf, s2)"
    by (cases "detect_aruco_markers env fr (tick env s)")
  have mf: "mf"
    using detect_result [of env fr "tick env s"] d dm by simp
  obtain r s3 where ap: "approach_charging_spot env s2 = (r, s3)"
    by (cases "approach_charging_spot env s2")
  have r: "r"
    using a dm ap by simp
  show ?thesis
    using fr dm mf ap r by (simp add: search_iteration_def read_frame_def)
qed

lemma search_loop_success:
  assumes c: "int (clock s) - int start_time < search_timeout (aruco_config s)"
    and fr: "frame_at env (calls s) = Some fr"
    and d: "detectMarkers env fr = Ids cs ids" "length cs \<le> length ids"
    and a: "fst (approach_charging_spot env (snd (detect_aruco_markers env fr (tick env s))))"
  shows "search_loop env start_time s =
    (True, snd (approach_charging_spot env (snd (detect_aruco_markers env fr (tick env s)))))"
  using c search_iteration_success [OF fr d a]
  by (simp add: search_loop.simps [of env start_time s])

text \<open>A detector that reports a marker on every frame, a camera that always has a
  frame, commands that do not fail.\<close>

lemma search_with_marker_in_view:
  assumes cam: "has_get_frame_read env"
    and cmds: "\<forall>k. \<not> command_raises env k"
    and frames: "\<forall>k. \<exists>fr cs ids. frame_at env k = Some fr \<and> detectMarkers env fr = Ids cs ids
        \<and> length cs \<le> length ids"
    and t: "0 < search_timeout (aruco_config s)"
  shows "fst (search_charging_spot env s)"
proof -
  have loop: "fst (search_loop env (clock x) x)" if cfg: "aruco_config x = aruco_config s" for x
  proof -
    obtain fr cs ids where f: "frame_at env (calls x) = Some fr"
      and d: "detectMarkers env fr = Ids cs ids" "length cs \<le> length ids"
      using frames by blast
    let ?s2 = "snd (detect_aruco_markers env fr (tick env x))"
    have a: "fst (approach_charging_spot env ?s2)"
      unfolding approach_success_iff using cmds frames by simp
    have c: "int (clock x) - int (clock x) < search_timeout (aruco_config x)"
      using t cfg by simp
    show ?thesis
      using search_loop_success [OF c f d a] by simp
  qed
  show ?thesis
    using cam cmds
    by (simp add: search_charging_spot_def Let_def loop)
qed


lemma marker_drone_fields [simp]:
  "has_get_frame_read marker_drone" "has_streamon marker_drone"
  "has_rotate_clockwise marker_drone" "has_move_forward marker_drone"
  "frame_at marker_drone k = Some 0" "\<not> command_raises marker_drone k"
  "detectMarkers marker_drone fr = Ids [(320, 240)] [7]" "duration marker_drone k = 50"
  by (simp_all add: marker_drone_def)


section \<open>The time the search takes\<close>

lemma clock_tick_le: "\<forall>k. duration env k \<le> L \<Longrightarrow> clock (tick env s) \<le> clock s + L"
  by (simp add: clock_tick)

lemma clock_detect_le:
  "\<forall>k. duration env k \<le> L \<Longrightarrow> clock (snd (detect_aruco_markers env fr s)) \<le> clock s + L"
  by (simp add: clock_detect)

lemma clock_refetch_le:
  assumes L: "\<forall>k. duration env k \<le> L"
  shows "clock (snd (refetch_and_detect env s)) \<le> clock s + 2 * L"
proof -
  have t: "clock (tick env s) \<le> clock s + L"
    using clock_tick_le [OF L] .
  show ?thesis
  proof (cases "frame_at env (calls s)")
    case None
    with t show ?thesis by (simp add: refetch_and_detect_def read_frame_def)
  next
    case (Some fr)
    have "clock (snd (detect_aruco_markers env fr (tick env s))) \<le> clock (tick env s) + L"
      using clock_detect_le [OF L] .
    with Some t show ?thesis by (simp add: refetch_and_detect_def read_frame_def)
  qed
qed

lemma clock_approach_le:
  assumes L: "\<forall>k. duration env k \<le> L"
  shows "clock (snd (approach_charging_spot env s)) \<le> clock s + 3 * L + 2000"
proof -
  let ?m = "tick env (emit (TelloCommand (MoveForward (approach_distance (aruco_config s)))) s)"
  have m: "clock ?m \<le> clock s + L"
    using clock_tick_le [OF L, of "emit (TelloCommand (MoveForward (approach_distance (aruco_config s)))) s"]
    by simp
  have r: "clock (snd (refetch_and_detect env x)) \<le> clock x + 2 * L" for x
    using clock_refetch_le [OF L] .
  show ?thesis
    using m r [of "sleep 2000 ?m"] r [of s]
    by (auto simp: approach_charging_spot_def Let_def)
qed

text \<open>One pass of the loop: at most six interactions, the settle wait of two seconds
  and the wait of one second after the rotation.\<close>

lemma clock_search_iteration_le:
  assumes L: "\<forall>k. duration env k \<le> L"
  shows "clock (snd (search_iteration env s)) \<le> clock s + 6 * L + 3000"
proof -
  have t: "clock (tick env s) \<le> clock s + L"
    using clock_tick_le [OF L] .
  show ?thesis
  proof (cases "frame_at env (calls s)")
    case None
    with t show ?thesis by (simp add: search_iteration_def read_frame_def)
  next
    case (Some fr)
    obtain mf s2 where d: "detect_aruco_markers env fr (tick env s) = (mf, s2)"
      by (cases "detect_aruco_markers env fr (tick env s)")
    have s2: "clock s2 \<le> clock s + 2 * L"
      using clock_detect_le [OF L, of fr "tick env s"] d t by simp
    obtain reached s3 where
      a: "(if mf then approach_charging_spot env s2 else (False, s2)) = (reached, s3)"
      by (cases "if mf then approach_charging_spot env s2 else (False, s2)")
    have s3: "clock s3 \<le> clock s + 5 * L + 2000"
      using a s2 clock_approach_le [OF L, of s2] by (cases mf) auto
    have t3: "clock (tick env (emit e s3)) \<le> clock s3 + L" for e
      using clock_tick_le [OF L, of "emit e s3"] by simp
    show ?thesis
      using Some d a s3 t3 [of "TelloCommand (RotateClockwise 30)"]
      by (simp add: search_iteration_def read_frame_def Let_def)
  qed
qed

lemma aruco_config_search_iteration:
  "aruco_config (snd (search_iteration env s)) = aruco_config s"
  using steady_search_iteration [of env s] by (simp add: steady_def)

lemma clock_search_loop_le:
  "\<forall>t. clock (snd (search_iteration env t)) \<le> clock t + D \<Longrightarrow>
   int (clock (snd (search_loop env start_time s)))
     \<le> max (int (clock s)) (int start_time + search_timeout (aruco_config s) + int D)"
proof (induction env start_time s rule: search_loop.induct)
  case (1 env start_time s)
  show ?case
  proof (cases "int (clock s) - int start_time < search_timeout (aruco_config s)")
    case False
    then show ?thesis by (simp add: search_loop.simps [of env start_time s])
  next
    case True
    obtain oc s' where it: "search_iteration env s = (oc, s')"
      by (cases "search_iteration env s")
    have cfg: "aruco_config s' = aruco_config s"
      using aruco_config_search_iteration [of env s] it by simp
    have "clock (snd (search_iteration env s)) \<le> clock s + D"
      using "1.prems" by blast
    with it have le: "clock s' \<le> clock s + D" by simp
    show ?thesis
    proof (cases oc)
      case (Return b)
      with True it le show ?thesis
        by (simp add: search_loop.simps [of env start_time s])
    next
      case Continue
      have "int (clock (snd (search_loop env start_time s')))
          \<le> max (int (clock s')) (int start_time + search_timeout (aruco_config s') + int D)"
        using "1.IH" [OF True it [symmetric] Continue "1.prems"] .
      with True it le cfg Continue show ?thesis
        by (simp add: search_loop.simps [of env start_time s])
    qed
  qed
qed

text \<open>The loop ends in the state it started in, or in the state left by a pass that
  began before the timeout.\<close>

lemma search_loop_last_pass:
  "snd (search_loop env start_time s) = s
   \<or> (\<exists>t. int (clock t) - int start_time < search_timeout (aruco_config s)
         \<and> snd (search_loop env start_time s) = snd (search_iteration env t))"
proof (induction env start_time s rule: search_loop.induct)
  case (1 env start_time s)
  show ?case
  proof (cases "int (clock s) - int start_time < search_timeout (aruco_config s)")
    case False
    then show ?thesis by (simp add: search_loop.simps [of env start_time s])
  next
    case True
    obtain oc s' where it: "search_iteration env s = (oc, s')"
      by (cases "search_iteration env s")
    have cfg: "aruco_config s' = aruco_config s"
      using aruco_config_search_iteration [of env s] it by simp
    have here: "int (clock s) - int start_time < search_timeout (aruco_config s)
        \<and> s' = snd (search_iteration env s)"
      using True it by simp
    show ?thesis
    proof (cases oc)
      case (Return b)
      then have "snd (search_loop env start_time s) = s'"
        using True it by (simp add: search_loop.simps [of env start_time s])
      with here show ?thesis by blast
    next
      case Continue
      then have eq: "search_loop env start_time s = search_loop env start_time s'"
        using True it by (simp add: search_loop.simps [of env start_time s])
      from "1.IH" [OF True it [symmetric] Continue]
      have "snd (search_loop env start_time s') = s'
        \<or> (\<exists>t. int (clock t) - int start_time < search_timeout (aruco_config s')
              \<and> snd (search_loop env start_time s') = snd (search_iteration env t))" .
      with eq cfg here show ?thesis by auto
    qed
  qed
qed

text \<open>The search returns true only out of a successful approach.\<close>

lemma search_iteration_true:
  "search_iteration env s = (Return True, s') \<Longrightarrow>
   \<exists>u. approach_charging_spot env u = (True, s')"
proof (cases "frame_at env (calls s)")
  case None
  assume "search_iteration env s = (Return True, s')"
  with None show ?thesis by (simp add: search_iteration_def read_frame_def)
next
  case (Some fr)
  assume it: "search_iteration env s = (Return True, s')"
  obtain mf s2 where d: "detect_aruco_markers env fr (tick env s) = (mf, s2)"
    by (cases "detect_aruco_markers env fr (tick env s)")
  obtain reached s3 where
    a: "(if mf then approach_charging_spot env s2 else (False, s2)) = (reached, s3)"
    by (cases "if mf then approach_charging_spot env s2 else (False, s2)")
  have "reached \<and> s3 = s'"
    using Some d a it
    by (simp add: search_iteration_def read_frame_def Let_def split: if_splits)
  with a have "approach_charging_spot env s2 = (True, s')"
    by (cases mf) auto
  then show ?thesis by blast
qed

lemma search_loop_true:
  "fst (search_loop env start_time s) \<Longrightarrow>
   \<exists>u. approach_charging_spot env u = (True, snd (search_loop env start_time s))"
proof (induction env start_time s rule: search_loop.induct)
  case (1 env start_time s)
  show ?case
  proof (cases "int (clock s) - int start_time < search_timeout (aruco_config s)")
    case False
    with "1.prems" show ?thesis by (simp add: search_loop.simps [of env start_time s])
  next
    case True
    obtain oc s' where it: "search_iteration env s = (oc, s')"
      by (cases "search_iteration env s")
    show ?thesis
    proof (cases oc)
      case (Return b)
      then have eq: "search_loop env start_time s = (b, s')"
        using True it by (simp add: search_loop.simps [of env start_time s])
      with "1.prems" have "b" by simp
      with it Return have "search_iteration env s = (Return True, s')" by simp
      from search_iteration_true [OF this] eq show ?thesis by simp
    next
      case Continue
      then have eq: "search_loop env start_time s = search_loop env start_time s'"
        using True it by (simp add: search_loop.simps [of env start_time s])
      with "1.prems" have "fst (search_loop env start_time s')" by simp
      from "1.IH" [OF True it [symmetric] Continue this] eq show ?thesis by simp
    qed
  qed
qed

lemma search_charging_spot_true:
  "fst (search_charging_spot env s) \<Longrightarrow>
   \<exists>u. approach_charging_spot env u = (True, snd (search_charging_spot env s))"
  by (auto simp: search_charging_spot_def Let_def split: if_splits dest: search_loop_true)

lemma search_charging_spot_no_frames:
  assumes "\<forall>k. frame_at env k = None"
  shows "\<not> fst (search_charging_spot env s)"
proof
  assume "fst (search_charging_spot env s)"
  then obtain u where "approach_charging_spot env u = (True, snd (search_charging_spot env s))"
    using search_charging_spot_true by blast
  then have "fst (approach_charging_spot env u)" by simp
  then show False
    unfolding approach_success_iff using assms by simp
qed

lemma clock_search_charging_spot_le:
  assumes L: "\<forall>k. duration env k \<le> L"
  shows "int (clock (snd (search_charging_spot env s)))
    \<le> int (clock s) + max 0 (search_timeout (aruco_config s)) + 8 * int L + 3000"
proof -
  have D: "\<forall>t. clock (snd (search_iteration env t)) \<le> clock t + (6 * L + 3000)"
    using clock_search_iteration_le [OF L] by (simp add: add.assoc)
  have loop: "int (clock (snd (search_loop env (clock x) x)))
      \<le> int (clock x) + max 0 (search_timeout (aruco_config x)) + 6 * int L + 3000" for x
    using clock_search_loop_le [OF D, of "clock x" x] by simp
  have cfg: "aruco_config (tick env x) = aruco_config x" "aruco_config (emit e x) = aruco_config x"
    for x e
    by (simp_all add: tick_def emit_def)
  have t: "int (clock (tick env x)) \<le> int (clock x) + int L" for x
    using clock_tick_le [OF L, of x] by simp
  let ?a = "emit (SearchCall (lock_held s)) s"
  let ?b = "tick env (emit (TelloCommand Streamon) ?a)"
  show ?thesis
  proof (cases "has_get_frame_read env")
    case False
    then show ?thesis by (simp add: search_charging_spot_def Let_def)
  next
    case cam: True
    show ?thesis
    proof (cases "has_streamon env")
      case True
      let ?c = "tick env (emit (TelloCommand GetFrameRead) ?b)"
      have b: "int (clock ?b) \<le> int (clock s) + int L"
        using t [of "emit (TelloCommand Streamon) ?a"] by simp
      have c: "int (clock ?c) \<le> int (clock s) + 2 * int L"
        using t [of "emit (TelloCommand GetFrameRead) ?b"] b by simp
      have "int (clock (snd (search_loop env (clock ?c) ?c)))
          \<le> int (clock s) + max 0 (search_timeout (aruco_config s)) + 8 * int L + 3000"
        using loop [of ?c] c by (simp add: cfg)
      with cam True b c show ?thesis
        by (auto simp add: search_charging_spot_def Let_def)
    next
      case False
      let ?c = "tick env (emit (TelloCommand GetFrameRead) ?a)"
      have c: "int (clock ?c) \<le> int (clock s) + int L"
        using t [of "emit (TelloCommand GetFrameRead) ?a"] by simp
      have "int (clock (snd (search_loop env (clock ?c) ?c)))
          \<le> int (clock s) + max 0 (search_timeout (aruco_config s)) + 8 * int L + 3000"
        using loop [of ?c] c by (simp add: cfg)
      with cam False c show ?thesis
        by (auto simp add: search_charging_spot_def Let_def)
    qed
  qed
qed

text \<open>
  Claim C3. The search is a total function: it returns for every drone, camera and
  detector, whose interactions each take a finite time. When every interaction takes at
  most \<open>L\<close> milliseconds, the loop ends no later than \<open>search_timeout\<close> after its start
  plus one pass (at most \<open>6 * L + 3000\<close>), and the whole search, with its two set-up
  calls, within \<open>search_timeout + 8 * L + 3000\<close>. The loop ends in the state it
  started in or in the state left by a pass begun before the timeout. The search
  returns true only out of a successful approach, and false otherwise; in particular it
  returns false when the camera never has a frame.
\<close>

theorem search_terminates_in_time:
  "((\<forall>k. duration env k \<le> L) \<longrightarrow>
      int (clock (snd (search_loop env (clock s) s)))
        \<le> int (clock s) + max 0 (search_timeout (aruco_config s)) + 6 * int L + 3000
      \<and> int (clock (snd (search_charging_spot env s)))
        \<le> int (clock s) + max 0 (search_timeout (aruco_config s)) + 8 * int L + 3000)
   \<and> (snd (search_loop env start_time s) = s
      \<or> (\<exists>t. int (clock t) - int start_time < search_timeout (aruco_config s)
            \<and> snd (search_loop env start_time s) = snd (search_iteration env t)))
   \<and> (fst (search_charging_spot env s) \<longrightarrow>
        (\<exists>u. approach_charging_spot env u = (True, snd (search_charging_spot env s))))
   \<and> ((\<forall>k. frame_at env k = None) \<longrightarrow> \<not> fst (search_charging_spot env s))"
proof (intro conjI impI)
  assume L: "\<forall>k. duration env k \<le> L"
  have D: "\<forall>t. clock (snd (search_iteration env t)) \<le> clock t + (6 * L + 3000)"
    using clock_search_iteration_le [OF L] by (simp add: add.assoc)
  show "int (clock (snd (search_loop env (clock s) s)))
        \<le> int (clock s) + max 0 (search_timeout (aruco_config s)) + 6 * int L + 3000"
    using clock_search_loop_le [OF D, of "clock s" s] by simp
  show "int (clock (snd (search_charging_spot env s)))
        \<le> int (clock s) + max 0 (search_timeout (aruco_config s)) + 8 * int L + 3000"
    using clock_search_charging_spot_le [OF L] .
next
  show "snd (search_loop env start_time s) = s
      \<or> (\<exists>t. int (clock t) - int start_time < search_timeout (aruco_config s)
            \<and> snd (search_loop env start_time s) = snd (search_iteration env t))"
    by (rule search_loop_last_pass)
next
  assume "fst (search_charging_spot env s)"
  then show "\<exists>u. approach_charging_spot env u = (True, snd (search_charging_spot env s))"
    by (rule search_charging_spot_true)
next
  assume "\<forall>k. frame_at env k = None"
  then show "\<not> fst (search_charging_spot env s)"
    by (rule search_charging_spot_no_frames)
qed

theorem search_terminates_in_time_witness:
  "(\<forall>k. duration blind_drone k \<le> 50)
   \<and> int (clock (snd (search_charging_spot blind_drone (EnhancedSimulation_init Map.empty))))
       \<le> 33400
   \<and> (\<forall>k. frame_at blind_drone k = None)
   \<and> \<not> fst (search_charging_spot blind_drone (EnhancedSimulation_init Map.empty))
   \<and> fst (search_charging_spot marker_drone (EnhancedSimulation_init Map.empty))
   \<and> (\<exists>u. approach_charging_spot marker_drone u
          = (True, snd (search_charging_spot marker_drone (EnhancedSimulation_init Map.empty))))"
proof -
  let ?s0 = "EnhancedSimulation_init Map.empty"
  have L: "\<forall>k. duration blind_drone k \<le> 50" and n: "\<forall>k. frame_at blind_drone k = None"
    by (simp_all add: blind_drone_def)
  have c: "clock ?s0 = 0" "search_timeout (aruco_config ?s0) = 30000"
    by (simp_all add: EnhancedSimulation_init_def config_get_def)
  have m: "fst (search_charging_spot marker_drone ?s0)"
    by (rule search_with_marker_in_view) (simp_all add: marker_drone_def c)
  from search_terminates_in_time [of blind_drone 50 ?s0 0] L n c
  have b: "int (clock (snd (search_charging_spot blind_drone ?s0))) \<le> 33400"
    "\<not> fst (search_charging_spot blind_drone ?s0)"
    by simp_all
  from search_terminates_in_time [of marker_drone 50 ?s0 0] m
  have "\<exists>u. approach_charging_spot marker_drone u
          = (True, snd (search_charging_spot marker_drone ?s0))"
    by blast
  with L n b m show ?thesis by blast
qed

section \<open>The lock at callbacks and writes\<close>

lemma manual_search_marker_trace:
  "trace (snd (manual_charging_search marker_drone (EnhancedSimulation_init Map.empty))) =
     [SearchCall False, TelloCommand Streamon, TelloCommand GetFrameRead,
      Write ChargingSpotPosition False, Write ChargingSpotFound False,
      TelloCommand (MoveForward 30),
      Write ChargingSpotPosition False, Write ChargingSpotFound False]"
  apply (simp add: manual_charging_search_def search_charging_spot_def Let_def)
  apply (subst search_loop.simps)
  apply (simp add: search_iteration_def read_frame_def detect_aruco_markers_def
      approach_charging_spot_def refetch_and_detect_def Let_def emit_def tick_def sleep_def
      EnhancedSimulation_init_def config_get_def)
  done

lemma critical_poll_monitor_events:
  "monitor_events (snd (process_battery_level bare_drone 9
       (set_callbacks (Some Returns) (Some Returns) None (EnhancedSimulation_init Map.empty)))) =
     [BatteryCallback 9 CRITICAL True, ChargingCallback 9 True, SearchCall True]"
  by (simp add: monitor_events_process)
     (simp add: spec_classify_def set_callbacks_def EnhancedSimulation_init_def config_get_def
        monitor_events_def)

text \<open>
  Claim C6, on the code. A poll at 9 percent with both callbacks set invokes the
  battery-change callback and the critical-entry callback while the lock is held (and
  starts the search under the lock). A manual search that sees a marker writes the
  charging-spot position and flag with the lock free, where
  \<open>reset_charging_spot_status\<close> writes the same two fields with the lock held.
\<close>

theorem lock_at_callbacks_and_writes:
  "BatteryCallback 9 CRITICAL True
     \<in> set (trace (snd (process_battery_level bare_drone 9
          (set_callbacks (Some Returns) (Some Returns) None (EnhancedSimulation_init Map.empty)))))
   \<and> ChargingCallback 9 True
     \<in> set (trace (snd (process_battery_level bare_drone 9
          (set_callbacks (Some Returns) (Some Returns) None (EnhancedSimulation_init Map.empty)))))
   \<and> Write ChargingSpotFound False
     \<in> set (trace (snd (manual_charging_search marker_drone (EnhancedSimulation_init Map.empty))))
   \<and> Write ChargingSpotPosition False
     \<in> set (trace (snd (manual_charging_search marker_drone (EnhancedSimulation_init Map.empty))))
   \<and> trace (reset_charging_spot_status (EnhancedSimulation_init Map.empty))
     = [Write ChargingSpotFound True, Write ChargingSpotPosition True]"
proof -
  let ?s = "snd (process_battery_level bare_drone 9
          (set_callbacks (Some Returns) (Some Returns) None (EnhancedSimulation_init Map.empty)))"
  have "set (monitor_events ?s) \<subseteq> set (trace ?s)"
    by (simp add: monitor_events_def)
  then have a: "BatteryCallback 9 CRITICAL True \<in> set (trace ?s)"
    and b: "ChargingCallback 9 True \<in> set (trace ?s)"
    unfolding critical_poll_monitor_events by simp_all
  have c: "trace (reset_charging_spot_status (EnhancedSimulation_init Map.empty))
     = [Write ChargingSpotFound True, Write ChargingSpotPosition True]"
    by (simp add: reset_charging_spot_status_def Let_def acquire_def release_def emit_def
        EnhancedSimulation_init_def)
  from a b c show ?thesis
    by (simp add: manual_search_marker_trace)
qed

end
